theory Spec2Isabelle
  imports Complex_Main
begin

section \<open>The partial-order alignment graph of \<^verbatim>\<open>src/graph.cpp\<close>\<close>

text \<open>
  The graph owns its nodes; every edge is one shared object, referenced from the
  out-edge list of its begin node and from the in-edge list of its end node.  The
  model keeps the shared edge objects in a store (\<open>edges\<close>, a list) and the two
  adjacency lists of a node hold handles, that is indices into that store, so that
  an update of an edge is seen from both endpoints, as it is through the shared
  pointers of the source.

  Node ids and sequence indices are \<open>uint32_t\<close> in the source and natural numbers
  here; the \<open>int32_t\<close> values that use \<open>-1\<close> for "none" are integers.  Weights and
  scores are \<open>float\<close> in the source and real numbers here; where the source adds two
  of them the model rounds the sum as the source does (\<open>float_add\<close> below).

  An operation returns \<open>Some (Inr v)\<close> when the source returns \<open>v\<close>,
  \<open>Some (Inl e)\<close> when the source stops at a failed assertion or reads outside a
  vector, and \<open>None\<close> when it does not return at all.
\<close>

datatype error =
    InvalidInput      \<comment> \<open>an assertion on the arguments of an operation fails\<close>
  | GraphCorruption   \<comment> \<open>the assertion "Graph is not a DAG!" or the sortedness self-check fails\<close>
  | OutOfBounds       \<comment> \<open>a vector is indexed outside its range\<close>

type_synonym 'a result = "(error + 'a) option"

subsection \<open>The addition of \<open>float\<close>\<close>

text \<open>
  The source adds weights and scores in single precision: the exact sum is rounded
  to 24 significant binary digits, a tie to the even neighbour.  \<open>bit_length k\<close> is
  the number of binary digits of \<open>k\<close>, \<open>float_exponent a\<close> the exponent \<open>e\<close> of a
  positive \<open>a\<close>, the largest one with \<open>pow2 e \<le> a\<close>, and the numbers with 24 digits
  and this exponent are spaced \<open>pow2 (e - 23)\<close> apart.  On the values of \<open>float\<close> the
  result is the sum that the source computes, as long as that sum is finite: the
  sum of two values of \<open>float\<close> below the normal range is exact in both.  The
  infinities and NaN have no counterpart here; a sum beyond the range of \<open>float\<close>
  stays a number.
\<close>

function bit_length :: "int \<Rightarrow> nat" where
  "bit_length k = (if k \<le> 0 then 0 else Suc (bit_length (k div 2)))"
  by pat_completeness auto

termination
  by (relation "measure nat") auto

declare bit_length.simps [simp del]

definition pow2 :: "int \<Rightarrow> real" where
  "pow2 k = (if 0 \<le> k then 2 ^ nat k else 1 / 2 ^ nat (- k))"

definition float_exponent :: "real \<Rightarrow> int" where
  "float_exponent a =
     (if 1 \<le> a then int (bit_length \<lfloor>a\<rfloor>) - 1
      else - int (bit_length (\<lceil>1 / a\<rceil> - 1)))"

definition round_to_even :: "real \<Rightarrow> int" where
  "round_to_even y =
     (if y - of_int \<lfloor>y\<rfloor> < 1 / 2 then \<lfloor>y\<rfloor>
      else if 1 / 2 < y - of_int \<lfloor>y\<rfloor> then \<lfloor>y\<rfloor> + 1
      else if even \<lfloor>y\<rfloor> then \<lfloor>y\<rfloor> else \<lfloor>y\<rfloor> + 1)"

definition float_round :: "real \<Rightarrow> real" where
  "float_round x =
     (if x = 0 then 0
      else sgn x * of_int (round_to_even (\<bar>x\<bar> / pow2 (float_exponent \<bar>x\<bar> - 23))) *
           pow2 (float_exponent \<bar>x\<bar> - 23))"

definition float_add :: "real \<Rightarrow> real \<Rightarrow> real" where
  "float_add x y = float_round (x + y)"

subsection \<open>Edges and nodes\<close>

text \<open>
  Modelled from the spec: the classes \<open>Edge\<close> (\<open>edge.hpp\<close>) and \<open>Node\<close>
  (\<open>node.hpp\<close>) are not part of the source at hand.  Following the data model of the
  specification, an edge carries its two endpoints, the labels of the sequences that
  traverse it together with one weight per traversal, and the sum of these weights;
  a node carries its id, its letter, its type (\<open>0\<close> primary, \<open>1\<close> variant), its
  adjacency and the ids of the nodes aligned with it.
\<close>

record edge =
  begin_node_id :: nat
  end_node_id :: nat
  sequence_labels :: "nat list"
  sequence_weights :: "real list"
  total_weight :: real

record node =
  node_id :: nat
  letter :: char
  node_type :: nat
  in_edges :: "nat list"
  out_edges :: "nat list"
  aligned_nodes_ids :: "nat list"

text \<open>Modelled from the spec: \<open>createEdge\<close> makes an edge traversed once.\<close>

definition createEdge :: "nat \<Rightarrow> nat \<Rightarrow> nat \<Rightarrow> real \<Rightarrow> edge" where
  "createEdge b e label w =
     \<lparr>begin_node_id = b, end_node_id = e, sequence_labels = [label],
      sequence_weights = [w], total_weight = w\<rparr>"

text \<open>Modelled from the spec: \<open>Edge::add_sequence\<close> appends the label and its
  weight and adds the weight to the total.  The class is not in the source at hand,
  so the sum is the one of the specification and is not rounded.\<close>

definition edge_add_sequence :: "edge \<Rightarrow> nat \<Rightarrow> real \<Rightarrow> edge" where
  "edge_add_sequence e label w =
     e\<lparr>sequence_labels := sequence_labels e @ [label],
       sequence_weights := sequence_weights e @ [w],
       total_weight := total_weight e + w\<rparr>"

text \<open>Modelled from the spec: \<open>createNode\<close> and the three \<open>Node::add_...\<close>
  methods, which append to the respective list.\<close>

definition createNode :: "nat \<Rightarrow> char \<Rightarrow> nat \<Rightarrow> node" where
  "createNode i c t =
     \<lparr>node_id = i, letter = c, node_type = t, in_edges = [], out_edges = [],
      aligned_nodes_ids = []\<rparr>"

definition add_in_edge :: "node \<Rightarrow> nat \<Rightarrow> node" where
  "add_in_edge n h = n\<lparr>in_edges := in_edges n @ [h]\<rparr>"

definition add_out_edge :: "node \<Rightarrow> nat \<Rightarrow> node" where
  "add_out_edge n h = n\<lparr>out_edges := out_edges n @ [h]\<rparr>"

definition add_aligned_node_id :: "node \<Rightarrow> nat \<Rightarrow> node" where
  "add_aligned_node_id n a = n\<lparr>aligned_nodes_ids := aligned_nodes_ids n @ [a]\<rparr>"

subsection \<open>The graph\<close>

record graph =
  num_sequences :: nat
  num_nodes :: nat
  nodes :: "node list"
  edges :: "edge list"
  alphabet :: "char set"
  is_sorted :: bool
  sorted_nodes_ids :: "nat list"
  sequences_start_nodes_ids :: "int list"
  consensus :: "nat list"

text \<open>The member initialisers of the constructor (lines 36-38).\<close>

definition empty_graph :: graph where
  "empty_graph =
     \<lparr>num_sequences = 0, num_nodes = 0, nodes = [], edges = [], alphabet = {},
      is_sorted = False, sorted_nodes_ids = [], sequences_start_nodes_ids = [],
      consensus = []\<rparr>"

text \<open>\<open>Graph::add_node\<close> (lines 55-58).\<close>

definition add_node :: "graph \<Rightarrow> char \<Rightarrow> nat \<Rightarrow> nat \<times> graph" where
  "add_node g c t =
     (num_nodes g,
      g\<lparr>nodes := nodes g @ [createNode (num_nodes g) c t],
        num_nodes := Suc (num_nodes g)\<rparr>)"

text \<open>The search loop of \<open>Graph::add_edge\<close> (lines 63-68): the handle of the first
  out-edge that ends in the given node.\<close>

fun find_out_edge :: "edge list \<Rightarrow> nat list \<Rightarrow> nat \<Rightarrow> nat option" where
  "find_out_edge es [] e = None"
| "find_out_edge es (h # hs) e =
     (if end_node_id (es ! h) = e then Some h else find_out_edge es hs e)"

text \<open>\<open>Graph::add_edge\<close> (lines 60-73).\<close>

definition add_edge :: "graph \<Rightarrow> nat \<Rightarrow> nat \<Rightarrow> real \<Rightarrow> error + graph" where
  "add_edge g b e w =
     (if \<not> (b < num_nodes g \<and> e < num_nodes g) then Inl InvalidInput
      else case find_out_edge (edges g) (out_edges (nodes g ! b)) e of
        Some h \<Rightarrow>
          Inr (g\<lparr>edges := (edges g)[h := edge_add_sequence (edges g ! h) (num_sequences g) w]\<rparr>)
      | None \<Rightarrow>
          (let h = length (edges g);
               ns1 = (nodes g)[b := add_out_edge (nodes g ! b) h];
               ns2 = ns1[e := add_in_edge (ns1 ! e) h]
           in Inr (g\<lparr>edges := edges g @ [createEdge b e (num_sequences g) w],
                     nodes := ns2\<rparr>)))"

text \<open>The loop of \<open>Graph::add_sequence\<close> (lines 301-304), over the positions
  \<open>begin + 1, ..., end - 1\<close>.\<close>

fun add_sequence_loop :: "graph \<Rightarrow> string \<Rightarrow> real list \<Rightarrow> nat list \<Rightarrow> error + graph" where
  "add_sequence_loop g s ws [] = Inr g"
| "add_sequence_loop g s ws (i # is) =
     (if \<not> (i < length s \<and> i < length ws) then Inl OutOfBounds
      else let (n, g1) = add_node g (s ! i) 0
           in case add_edge g1 (n - 1) n (float_add (ws ! (i - 1)) (ws ! i)) of
                Inl e \<Rightarrow> Inl e
              | Inr g2 \<Rightarrow> add_sequence_loop g2 s ws is)"

text \<open>\<open>Graph::add_sequence\<close> (lines 289-307); the result \<open>-1\<close> stands for "none".\<close>

definition add_sequence :: "graph \<Rightarrow> string \<Rightarrow> real list \<Rightarrow> nat \<Rightarrow> nat \<Rightarrow> error + (int \<times> graph)" where
  "add_sequence g s ws b e =
     (if b = e then Inr (- 1, g)
      else if \<not> (b < length s \<and> e \<le> length s) then Inl InvalidInput
      else let (first_node_id, g1) = add_node g (s ! b) 0
           in case add_sequence_loop g1 s ws [b + 1 ..< e] of
                Inl err \<Rightarrow> Inl err
              | Inr g2 \<Rightarrow> Inr (int first_node_id, g2))"

subsection \<open>Topological sort\<close>

text \<open>
  \<open>Graph::visit_node\<close> (lines 103-118) is recursive; the state is the pair of the
  output vector \<open>dst\<close> and the vector of marks (\<open>0\<close> unmarked, \<open>1\<close> temporarily
  marked, \<open>2\<close> permanently marked).  The first argument bounds the depth of the
  recursion: \<open>None\<close> means that the bound was too small.  \<open>visit_in_edges\<close> is the
  loop over the in-edges of a node (lines 111-113).
\<close>

fun visit_node :: "nat \<Rightarrow> graph \<Rightarrow> nat \<Rightarrow> nat list \<times> nat list \<Rightarrow> (nat list \<times> nat list) result"
and visit_in_edges :: "nat \<Rightarrow> graph \<Rightarrow> nat list \<Rightarrow> nat list \<times> nat list \<Rightarrow> (nat list \<times> nat list) result"
where
  "visit_node 0 g n s = None"
| "visit_node (Suc f) g n (dst, marks) =
     (if \<not> n < length marks then Some (Inl OutOfBounds)
      else if marks ! n = 1 then Some (Inl GraphCorruption)
      else if marks ! n = 0 then
        (case visit_in_edges f g (in_edges (nodes g ! n)) (dst, marks[n := 1]) of
           Some (Inr (dst', marks')) \<Rightarrow> Some (Inr (dst' @ [n], marks'[n := 2]))
         | r \<Rightarrow> r)
      else Some (Inr (dst, marks)))"
| "visit_in_edges f g [] s = Some (Inr s)"
| "visit_in_edges f g (h # hs) s =
     (case visit_node f g (begin_node_id (edges g ! h)) s of
        Some (Inr s') \<Rightarrow> visit_in_edges f g hs s'
      | r \<Rightarrow> r)"

text \<open>The loop of \<open>Graph::topological_sort\<close> (lines 85-97): every node, in the
  order of the ids, is the root of a search if it is still unmarked.\<close>

fun sort_loop :: "nat \<Rightarrow> graph \<Rightarrow> nat list \<Rightarrow> nat list \<times> nat list \<Rightarrow> (nat list \<times> nat list) result" where
  "sort_loop f g [] s = Some (Inr s)"
| "sort_loop f g (i # is) (dst, marks) =
     (if marks ! node_id (nodes g ! i) = 0 then
        (case visit_node f g i (dst, marks) of
           Some (Inr s') \<Rightarrow> sort_loop f g is s'
         | r \<Rightarrow> r)
      else sort_loop f g is (dst, marks))"

text \<open>\<open>Graph::is_topologically_sorted\<close> (lines 152-166).\<close>

fun check_sorted :: "graph \<Rightarrow> nat list \<Rightarrow> nat set \<Rightarrow> bool" where
  "check_sorted g [] visited = True"
| "check_sorted g (n # ns) visited =
     (if list_all (\<lambda>h. begin_node_id (edges g ! h) \<in> visited) (in_edges (nodes g ! n))
      then check_sorted g ns (insert n visited) else False)"

definition is_topologically_sorted :: "graph \<Rightarrow> error + bool" where
  "is_topologically_sorted g =
     (if length (nodes g) \<noteq> length (sorted_nodes_ids g) then Inl GraphCorruption
      else Inr (check_sorted g (sorted_nodes_ids g) {}))"

text \<open>\<open>Graph::topological_sort\<close> (lines 75-101).  The depth of the recursion is
  bounded by the number of nodes plus one.\<close>

definition topological_sort :: "graph \<Rightarrow> graph result" where
  "topological_sort g =
     (if is_sorted g then Some (Inr g)
      else case sort_loop (Suc (num_nodes g)) g [0 ..< num_nodes g]
                  ([], replicate (num_nodes g) 0) of
        None \<Rightarrow> None
      | Some (Inl e) \<Rightarrow> Some (Inl e)
      | Some (Inr (dst, marks)) \<Rightarrow>
          (let g' = g\<lparr>sorted_nodes_ids := dst\<rparr>
           in case is_topologically_sorted g' of
                Inl e \<Rightarrow> Some (Inl e)
              | Inr b \<Rightarrow> if b then Some (Inr (g'\<lparr>is_sorted := True\<rparr>))
                         else Some (Inl GraphCorruption)))"

subsection \<open>Construction and alignment merge\<close>

text \<open>The constructor \<open>Graph::Graph\<close> behind \<open>createGraph\<close> (lines 30-50).\<close>

definition createGraph :: "string \<Rightarrow> real list \<Rightarrow> graph result" where
  "createGraph s ws =
     (if s = [] \<or> length s \<noteq> length ws then Some (Inl InvalidInput)
      else case add_sequence (empty_graph\<lparr>alphabet := set s\<rparr>) s ws 0 (length s) of
        Inl e \<Rightarrow> Some (Inl e)
      | Inr (start_node_id, g1) \<Rightarrow>
          topological_sort
            (g1\<lparr>sequences_start_nodes_ids := sequences_start_nodes_ids g1 @ [start_node_id],
                num_sequences := Suc (num_sequences g1)\<rparr>))"

text \<open>The overload with one weight for every position (lines 17-20).\<close>

definition createGraph_uniform :: "string \<Rightarrow> real \<Rightarrow> graph result" where
  "createGraph_uniform s w = createGraph s (replicate (length s) w)"

text \<open>The search for an aligned node with the letter of the new character
  (lines 241-247); \<open>-1\<close> when there is none.\<close>

fun find_aligned_letter :: "node list \<Rightarrow> nat list \<Rightarrow> char \<Rightarrow> int" where
  "find_aligned_letter ns [] c = - 1"
| "find_aligned_letter ns (aid # aids) c =
     (if letter (ns ! aid) = c then int aid else find_aligned_letter ns aids c)"

text \<open>The loop that links a new variant node with every node aligned to the
  existing one (lines 252-255).\<close>

fun link_aligned :: "node list \<Rightarrow> nat \<Rightarrow> nat list \<Rightarrow> node list" where
  "link_aligned ns new [] = ns"
| "link_aligned ns new (aid # aids) =
     (let ns1 = ns[new := add_aligned_node_id (ns ! new) aid];
          ns2 = ns1[aid := add_aligned_node_id (ns1 ! aid) new]
      in link_aligned ns2 new aids)"

text \<open>The node that one column of the correspondence resolves to (lines 231-264):
  a fresh node, the existing node, an aligned node with the same letter, or a fresh
  variant node linked into the aligned set.\<close>

definition resolve_node :: "graph \<Rightarrow> int \<Rightarrow> char \<Rightarrow> error + (nat \<times> graph)" where
  "resolve_node g nid c =
     (if nid = - 1 then Inr (add_node g c 0)
      else if \<not> (0 \<le> nid \<and> nat nid < length (nodes g)) then Inl OutOfBounds
      else let k = nat nid; node = nodes g ! k
           in if letter node = c then Inr (k, g)
              else let a = find_aligned_letter (nodes g) (aligned_nodes_ids node) c
                   in if a = - 1 then
                        (let (new, g1) = add_node g c 1;
                             ns1 = link_aligned (nodes g1) new (aligned_nodes_ids node);
                             ns2 = ns1[new := add_aligned_node_id (ns1 ! new) k];
                             ns3 = ns2[k := add_aligned_node_id (ns2 ! k) new]
                         in Inr (new, g1\<lparr>nodes := ns3\<rparr>))
                      else Inr (nat a, g))"

text \<open>The loop over the columns of the correspondence (lines 226-276).  The state
  is \<open>(start_node_id, head_node_id, prev_weight)\<close>; \<open>new_node_id\<close> is assigned in
  every iteration before it is read.\<close>

fun alignment_loop ::
  "graph \<Rightarrow> string \<Rightarrow> real list \<Rightarrow> (int \<times> int) list \<Rightarrow> int \<times> int \<times> real \<Rightarrow>
   error + (graph \<times> int \<times> int \<times> real)" where
  "alignment_loop g s ws [] st = Inr (g, st)"
| "alignment_loop g s ws ((nid, sid) # cols) (start_node_id, head_node_id, prev_weight) =
     (if sid = - 1 then
        alignment_loop g s ws cols (start_node_id, head_node_id, prev_weight)
      else if \<not> (0 \<le> sid \<and> nat sid < length s \<and> nat sid < length ws) then Inl OutOfBounds
      else case resolve_node g nid (s ! nat sid) of
        Inl e \<Rightarrow> Inl e
      | Inr (new_node_id, g1) \<Rightarrow>
          (case (if head_node_id \<noteq> - 1
                 then add_edge g1 (nat head_node_id) new_node_id
                        (float_add prev_weight (ws ! nat sid))
                 else Inr g1) of
             Inl e \<Rightarrow> Inl e
           | Inr g2 \<Rightarrow>
               alignment_loop g2 s ws cols
                 (if start_node_id = - 1 then int new_node_id else start_node_id,
                  int new_node_id, ws ! nat sid)))"

text \<open>The conversion of an \<open>int32_t\<close> to \<open>uint32_t\<close>, as it happens when a sequence
  position is stored into \<open>valid_seq_ids\<close>.\<close>

definition to_uint32 :: "int \<Rightarrow> nat" where
  "to_uint32 v = nat (v mod 4294967296)"

text \<open>\<open>Graph::add_alignment\<close> (lines 185-287).  The correspondence is the pair of
  \<open>node_ids\<close> and \<open>seq_ids\<close>.  \<open>front()\<close> and \<open>back()\<close> of an empty vector are reads
  outside the vector.\<close>

definition add_alignment :: "graph \<Rightarrow> int list \<times> int list \<Rightarrow> string \<Rightarrow> real list \<Rightarrow> graph result" where
  "add_alignment g alignment s ws =
     (let node_ids = fst alignment; seq_ids = snd alignment
      in if s = [] \<or> length s \<noteq> length ws \<or> length node_ids \<noteq> length seq_ids
         then Some (Inl InvalidInput)
         else let g0 = g\<lparr>alphabet := alphabet g \<union> set s\<rparr>
         in if seq_ids = [] then
              (case add_sequence g0 s ws 0 (length s) of
                 Inl e \<Rightarrow> Some (Inl e)
               | Inr (start_node_id, g1) \<Rightarrow>
                   topological_sort
                     (g1\<lparr>num_sequences := Suc (num_sequences g1),
                         sequences_start_nodes_ids := sequences_start_nodes_ids g1 @ [start_node_id],
                         is_sorted := False\<rparr>))
            else let valid_seq_ids = map to_uint32 (filter (\<lambda>x. x \<noteq> - 1) seq_ids)
            in if valid_seq_ids = [] then Some (Inl OutOfBounds)
               else let front = hd valid_seq_ids;
                        back = last valid_seq_ids
               in case add_sequence g0 s ws 0 front of
                    Inl e \<Rightarrow> Some (Inl e)
                  | Inr (start_node_id, g1) \<Rightarrow>
                      (let head_node_id =
                             (if num_nodes g0 = num_nodes g1 then - 1 else int (num_nodes g1) - 1)
                       in case add_sequence g1 s ws (to_uint32 (int back + 1)) (length s) of
                            Inl e \<Rightarrow> Some (Inl e)
                          | Inr (tail_node_id, g2) \<Rightarrow>
                              (let prev_weight = (if head_node_id = - 1 then 0 else ws ! (front - 1))
                               in case alignment_loop g2 s ws (zip node_ids seq_ids)
                                         (start_node_id, head_node_id, prev_weight) of
                                    Inl e \<Rightarrow> Some (Inl e)
                                  | Inr (g3, start_node_id', head_node_id', prev_weight') \<Rightarrow>
                                      (case (if tail_node_id \<noteq> - 1
                                             then add_edge g3 (nat head_node_id') (nat tail_node_id)
                                                    (float_add prev_weight' (ws ! (back + 1)))
                                             else Inr g3) of
                                         Inl e \<Rightarrow> Some (Inl e)
                                       | Inr g4 \<Rightarrow>
                                           topological_sort
                                             (g4\<lparr>num_sequences := Suc (num_sequences g4),
                                                 sequences_start_nodes_ids :=
                                                   sequences_start_nodes_ids g4 @ [start_node_id'],
                                                 is_sorted := False\<rparr>)))))"

text \<open>The overload with one weight for every position (lines 168-173).\<close>

definition add_alignment_uniform :: "graph \<Rightarrow> int list \<times> int list \<Rightarrow> string \<Rightarrow> real \<Rightarrow> graph result" where
  "add_alignment_uniform g alignment s w = add_alignment g alignment s (replicate (length s) w)"

subsection \<open>Heaviest-bundle traversal\<close>

text \<open>The update of \<open>scores[node_id]\<close> and \<open>predecessors[node_id]\<close> for one in-edge
  (lines 413-419, and again lines 480-486).  \<open>||\<close> and \<open>&&\<close> evaluate from left to
  right and stop early, so \<open>scores[predecessors[node_id]]\<close> is read only when the
  score equals the weight of the edge; with \<open>predecessors[node_id] = -1\<close> that read
  is outside the vector.  \<open>relax_in_edges\<close> is the loop over the in-edges of a node
  in \<open>Graph::traverse_heaviest_bundle\<close> (lines 412-420).\<close>

definition relax_edge :: "edge \<Rightarrow> nat \<Rightarrow> real list \<times> int list \<Rightarrow> error + (real list \<times> int list)" where
  "relax_edge e n sp =
     (case sp of (scores, predecessors) \<Rightarrow>
        if scores ! n < total_weight e then
          Inr (scores[n := total_weight e], predecessors[n := int (begin_node_id e)])
        else if scores ! n = total_weight e then
          (if predecessors ! n < 0 then Inl OutOfBounds
           else if scores ! nat (predecessors ! n) \<le> scores ! begin_node_id e then
             Inr (scores[n := total_weight e], predecessors[n := int (begin_node_id e)])
           else Inr sp)
        else Inr sp)"

fun relax_in_edges ::
  "edge list \<Rightarrow> nat \<Rightarrow> nat list \<Rightarrow> real list \<times> int list \<Rightarrow> error + (real list \<times> int list)" where
  "relax_in_edges es n [] sp = Inr sp"
| "relax_in_edges es n (h # hs) sp =
     (case relax_edge (es ! h) n sp of
        Inl e \<Rightarrow> Inl e
      | Inr sp' \<Rightarrow> relax_in_edges es n hs sp')"

text \<open>The loop over the sorted nodes (lines 411-429); the state is
  \<open>(scores, predecessors, max_score_id)\<close>.\<close>

fun score_nodes ::
  "graph \<Rightarrow> nat list \<Rightarrow> real list \<times> int list \<times> nat \<Rightarrow> error + (real list \<times> int list \<times> nat)" where
  "score_nodes g [] st = Inr st"
| "score_nodes g (n # ns) (scores, predecessors, max_score_id) =
     (case relax_in_edges (edges g) n (in_edges (nodes g ! n)) (scores, predecessors) of
        Inl e \<Rightarrow> Inl e
      | Inr (scores1, predecessors1) \<Rightarrow>
          (let scores2 = (if predecessors1 ! n \<noteq> - 1
                          then scores1[n := float_add (scores1 ! n) (scores1 ! nat (predecessors1 ! n))]
                          else scores1)
           in score_nodes g ns
                (scores2, predecessors1,
                 if scores2 ! max_score_id < scores2 ! n then n else max_score_id)))"

text \<open>\<open>Graph::branch_completion\<close>: the two nested loops that invalidate the other
  predecessors of the successors of the node (lines 459-465).\<close>

fun invalidate_in_edges :: "edge list \<Rightarrow> nat \<Rightarrow> nat list \<Rightarrow> real list \<Rightarrow> real list" where
  "invalidate_in_edges es n [] scores = scores"
| "invalidate_in_edges es n (h # hs) scores =
     invalidate_in_edges es n hs
       (if begin_node_id (es ! h) \<noteq> n then scores[begin_node_id (es ! h) := - 1] else scores)"

fun invalidate_siblings :: "graph \<Rightarrow> nat \<Rightarrow> nat list \<Rightarrow> real list \<Rightarrow> real list" where
  "invalidate_siblings g n [] scores = scores"
| "invalidate_siblings g n (h # hs) scores =
     invalidate_siblings g n hs
       (invalidate_in_edges (edges g) n
          (in_edges (nodes g ! end_node_id (edges g ! h))) scores)"

text \<open>The loop over the in-edges in \<open>Graph::branch_completion\<close> (lines 475-487),
  which skips the predecessors whose score is \<open>-1\<close>.\<close>

fun relax_valid_in_edges ::
  "edge list \<Rightarrow> nat \<Rightarrow> nat list \<Rightarrow> real list \<times> int list \<Rightarrow> error + (real list \<times> int list)" where
  "relax_valid_in_edges es n [] sp = Inr sp"
| "relax_valid_in_edges es n (h # hs) sp =
     (if fst sp ! begin_node_id (es ! h) = - 1 then relax_valid_in_edges es n hs sp
      else case relax_edge (es ! h) n sp of
        Inl e \<Rightarrow> Inl e
      | Inr sp' \<Rightarrow> relax_valid_in_edges es n hs sp')"

text \<open>The loop over the nodes behind the given rank (lines 469-497); the state is
  \<open>(scores, predecessors, max_score, max_score_id)\<close>.\<close>

fun complete_nodes ::
  "graph \<Rightarrow> nat list \<Rightarrow> real list \<times> int list \<times> real \<times> nat \<Rightarrow>
   error + (real list \<times> int list \<times> real \<times> nat)" where
  "complete_nodes g [] st = Inr st"
| "complete_nodes g (n # ns) (scores, predecessors, max_score, max_score_id) =
     (case relax_valid_in_edges (edges g) n (in_edges (nodes g ! n))
             (scores[n := - 1], predecessors[n := - 1]) of
        Inl e \<Rightarrow> Inl e
      | Inr (scores1, predecessors1) \<Rightarrow>
          (let scores2 = (if predecessors1 ! n \<noteq> - 1
                          then scores1[n := float_add (scores1 ! n) (scores1 ! nat (predecessors1 ! n))]
                          else scores1)
           in complete_nodes g ns
                (if max_score < scores2 ! n then (scores2, predecessors1, scores2 ! n, n)
                 else (scores2, predecessors1, max_score, max_score_id))))"

text \<open>\<open>Graph::branch_completion\<close> (lines 455-500).\<close>

definition branch_completion ::
  "graph \<Rightarrow> real list \<Rightarrow> int list \<Rightarrow> nat \<Rightarrow> error + (real list \<times> int list \<times> nat)" where
  "branch_completion g scores predecessors rank =
     (if \<not> rank < length (sorted_nodes_ids g) then Inl OutOfBounds
      else let n = sorted_nodes_ids g ! rank;
               scores1 = invalidate_siblings g n (out_edges (nodes g ! n)) scores
           in case complete_nodes g (drop (Suc rank) (sorted_nodes_ids g))
                     (scores1, predecessors, 0, 0) of
                Inl e \<Rightarrow> Inl e
              | Inr (scores2, predecessors2, max_score, max_score_id) \<Rightarrow>
                  Inr (scores2, predecessors2, max_score_id))"

text \<open>The table from node ids to ranks (lines 433-436).\<close>

definition node_id_to_rank :: "graph \<Rightarrow> nat list" where
  "node_id_to_rank g =
     fold (\<lambda>i rank. rank[sorted_nodes_ids g ! i := i]) [0 ..< num_nodes g]
       (replicate (num_nodes g) 0)"

text \<open>The loop that repeats the branch completion while the best node has
  outgoing edges (lines 438-441).  Nothing bounds the number of its iterations in the
  source, so it is a partial function: \<open>None\<close> means that it runs forever.\<close>

partial_function (option) completion_loop ::
  "graph \<Rightarrow> nat list \<Rightarrow> real list \<times> int list \<times> nat \<Rightarrow> (real list \<times> int list \<times> nat) result" where
  "completion_loop g ranks st =
     (case st of (scores, predecessors, max_score_id) \<Rightarrow>
        if out_edges (nodes g ! max_score_id) = [] then Some (Inr st)
        else (case branch_completion g scores predecessors (ranks ! max_score_id) of
                Inl e \<Rightarrow> Some (Inl e)
              | Inr st' \<Rightarrow> completion_loop g ranks st'))"

declare completion_loop.simps [code]

text \<open>The traceback (lines 446-450).\<close>

partial_function (option) traceback :: "int list \<Rightarrow> nat \<Rightarrow> nat list \<Rightarrow> nat list option" where
  "traceback predecessors max_score_id acc =
     (if predecessors ! max_score_id \<noteq> - 1
      then traceback predecessors (nat (predecessors ! max_score_id)) (acc @ [max_score_id])
      else Some (acc @ [max_score_id]))"

declare traceback.simps [code]

text \<open>\<open>Graph::traverse_heaviest_bundle\<close> (lines 405-453).  In a graph without
  nodes the first read of \<open>nodes_[max_score_id]\<close> is outside the vector.\<close>

definition traverse_heaviest_bundle :: "graph \<Rightarrow> graph result" where
  "traverse_heaviest_bundle g =
     (if num_nodes g = 0 then Some (Inl OutOfBounds)
      else case score_nodes g (sorted_nodes_ids g)
                  (replicate (num_nodes g) 0, replicate (num_nodes g) (- 1), 0) of
        Inl e \<Rightarrow> Some (Inl e)
      | Inr (scores, predecessors, max_score_id) \<Rightarrow>
          (case (if out_edges (nodes g ! max_score_id) \<noteq> []
                 then completion_loop g (node_id_to_rank g) (scores, predecessors, max_score_id)
                 else Some (Inr (scores, predecessors, max_score_id))) of
             None \<Rightarrow> None
           | Some (Inl e) \<Rightarrow> Some (Inl e)
           | Some (Inr (scores', predecessors', max_score_id')) \<Rightarrow>
               (case traceback predecessors' max_score_id' [] of
                  None \<Rightarrow> None
                | Some c \<Rightarrow> Some (Inr (g\<lparr>consensus := rev c\<rparr>)))))"

text \<open>\<open>Graph::generate_consensus\<close> (lines 394-403).\<close>

definition generate_consensus :: "graph \<Rightarrow> (string \<times> graph) result" where
  "generate_consensus g =
     (case traverse_heaviest_bundle g of
        None \<Rightarrow> None
      | Some (Inl e) \<Rightarrow> Some (Inl e)
      | Some (Inr g') \<Rightarrow> Some (Inr (map (\<lambda>n. letter (nodes g' ! n)) (consensus g'), g')))"

subsection \<open>Multiple sequence alignment\<close>

text \<open>The loop that emits the aligned nodes behind a primary node (lines 144-147).\<close>

fun emit_aligned :: "nat list \<Rightarrow> nat list \<times> nat list \<Rightarrow> nat list \<times> nat list" where
  "emit_aligned [] s = s"
| "emit_aligned (aid # aids) (dst, marks) = emit_aligned aids (dst @ [aid], marks[aid := 2])"

text \<open>
  \<open>Graph::visit_node_rigorously\<close> (lines 120-150), with a bound on the depth of the
  recursion as for \<open>visit_node\<close>.  \<open>visit_in_edges_rigorously\<close> is the loop over the
  in-edges (lines 130-132), \<open>visit_aligned_rigorously\<close> the loop over the aligned
  nodes (lines 135-137).  A node of type \<open>1\<close> keeps the mark \<open>1\<close> when the call
  returns.
\<close>

function (sequential) visit_node_rigorously ::
  "nat \<Rightarrow> graph \<Rightarrow> nat \<Rightarrow> nat list \<times> nat list \<Rightarrow> (nat list \<times> nat list) result"
and visit_in_edges_rigorously ::
  "nat \<Rightarrow> graph \<Rightarrow> nat list \<Rightarrow> nat list \<times> nat list \<Rightarrow> (nat list \<times> nat list) result"
and visit_aligned_rigorously ::
  "nat \<Rightarrow> graph \<Rightarrow> nat list \<Rightarrow> nat list \<times> nat list \<Rightarrow> (nat list \<times> nat list) result"
where
  "visit_node_rigorously 0 g n s = None"
| "visit_node_rigorously (Suc f) g n (dst, marks) =
     (if \<not> n < length marks then Some (Inl OutOfBounds)
      else if marks ! n = 1 then Some (Inl GraphCorruption)
      else if marks ! n = 0 then
        (case visit_in_edges_rigorously f g (in_edges (nodes g ! n)) (dst, marks[n := 1]) of
           Some (Inr s1) \<Rightarrow>
             (if node_type (nodes g ! n) = 0 then
                (case visit_aligned_rigorously f g (aligned_nodes_ids (nodes g ! n)) s1 of
                   Some (Inr (dst2, marks2)) \<Rightarrow>
                     Some (Inr (emit_aligned (aligned_nodes_ids (nodes g ! n))
                                  (dst2 @ [n], marks2[n := 2])))
                 | r \<Rightarrow> r)
              else Some (Inr s1))
         | r \<Rightarrow> r)
      else Some (Inr (dst, marks)))"
| "visit_in_edges_rigorously f g [] s = Some (Inr s)"
| "visit_in_edges_rigorously f g (h # hs) s =
     (case visit_node_rigorously f g (begin_node_id (edges g ! h)) s of
        Some (Inr s') \<Rightarrow> visit_in_edges_rigorously f g hs s'
      | r \<Rightarrow> r)"
| "visit_aligned_rigorously f g [] s = Some (Inr s)"
| "visit_aligned_rigorously f g (aid # aids) s =
     (case visit_node_rigorously f g aid s of
        Some (Inr s') \<Rightarrow> visit_aligned_rigorously f g aids s'
      | r \<Rightarrow> r)"
  by pat_completeness auto

termination
  by (relation "measures
        [case_sum (\<lambda>(f, _, _, _). f) (case_sum (\<lambda>(f, _, _, _). f) (\<lambda>(f, _, _, _). f)),
         case_sum (\<lambda>_. 0) (case_sum (\<lambda>(_, _, hs, _). Suc (length hs))
                                      (\<lambda>(_, _, aids, _). Suc (length aids)))]")
     auto

text \<open>The rigorous topological sort at the start of \<open>Graph::generate_msa\<close>
  (lines 311-318): every node of the cached order is a root.\<close>

fun rigorous_sort_loop ::
  "nat \<Rightarrow> graph \<Rightarrow> nat list \<Rightarrow> nat list \<times> nat list \<Rightarrow> (nat list \<times> nat list) result" where
  "rigorous_sort_loop f g [] s = Some (Inr s)"
| "rigorous_sort_loop f g (n # ns) s =
     (case visit_node_rigorously f g n s of
        Some (Inr s') \<Rightarrow> rigorous_sort_loop f g ns s'
      | r \<Rightarrow> r)"

definition rigorous_sort :: "graph \<Rightarrow> nat list result" where
  "rigorous_sort g =
     (case rigorous_sort_loop (Suc (num_nodes g)) g (sorted_nodes_ids g)
             ([], replicate (num_nodes g) 0) of
        None \<Rightarrow> None
      | Some (Inl e) \<Rightarrow> Some (Inl e)
      | Some (Inr (dst, marks)) \<Rightarrow> Some (Inr dst))"

text \<open>The assignment of a column to every node (lines 324-336), over the rest of
  the rigorously sorted ids: a node of type \<open>0\<close> gets the next column and so do the
  ids that follow it, as many as it has aligned nodes; a node of type \<open>1\<close> met on
  its own is skipped.  The table maps a node id to its column, \<open>-1\<close> when it has
  none.\<close>

fun assign_msa_ids :: "graph \<Rightarrow> nat list \<Rightarrow> int list \<times> nat \<Rightarrow> error + (int list \<times> nat)" where
  "assign_msa_ids g [] st = Inr st"
| "assign_msa_ids g (n # rest) (msa_node_ids, base_counter) =
     (if node_type (nodes g ! n) = 0 then
        (if length rest < length (aligned_nodes_ids (nodes g ! n)) then Inl OutOfBounds
         else assign_msa_ids g (drop (length (aligned_nodes_ids (nodes g ! n))) rest)
                (fold (\<lambda>a m. m[a := int base_counter])
                   (n # take (length (aligned_nodes_ids (nodes g ! n))) rest) msa_node_ids,
                 Suc base_counter))
      else assign_msa_ids g rest (msa_node_ids, base_counter))"

text \<open>The search for the next node of sequence \<open>i\<close> (lines 348-359): the end of the
  first out-edge that carries the label \<open>i\<close> and does not end in the node itself.\<close>

fun next_node :: "edge list \<Rightarrow> nat list \<Rightarrow> nat \<Rightarrow> nat \<Rightarrow> nat" where
  "next_node es [] i prev_node_id = prev_node_id"
| "next_node es (h # hs) i prev_node_id =
     (if i \<in> set (sequence_labels (es ! h)) \<and> end_node_id (es ! h) \<noteq> prev_node_id
      then end_node_id (es ! h) else next_node es hs i prev_node_id)"

text \<open>The walk along one sequence (lines 345-364), which writes the letter of every
  node into its column of the row.  Nothing bounds the walk in the source, so it is
  a partial function.\<close>

partial_function (option) follow_sequence ::
  "graph \<Rightarrow> int list \<Rightarrow> nat \<Rightarrow> nat \<Rightarrow> string \<Rightarrow> string result" where
  "follow_sequence g msa_node_ids i curr_node_id alignment_str =
     (if \<not> (curr_node_id < length msa_node_ids \<and> curr_node_id < length (nodes g) \<and>
             0 \<le> msa_node_ids ! curr_node_id \<and>
             nat (msa_node_ids ! curr_node_id) < length alignment_str)
      then Some (Inl OutOfBounds)
      else (let str = alignment_str[nat (msa_node_ids ! curr_node_id) :=
                        letter (nodes g ! curr_node_id)];
                next = next_node (edges g) (out_edges (nodes g ! curr_node_id)) i curr_node_id
            in if next = curr_node_id then Some (Inr str)
               else follow_sequence g msa_node_ids i next str))"

declare follow_sequence.simps [code]

text \<open>The loop over the sequences (lines 341-367).\<close>

fun extract_sequences :: "graph \<Rightarrow> int list \<Rightarrow> nat \<Rightarrow> nat list \<Rightarrow> string list result" where
  "extract_sequences g msa_node_ids base_counter [] = Some (Inr [])"
| "extract_sequences g msa_node_ids base_counter (i # is) =
     (if \<not> (i < length (sequences_start_nodes_ids g) \<and> 0 \<le> sequences_start_nodes_ids g ! i)
      then Some (Inl OutOfBounds)
      else case follow_sequence g msa_node_ids i (nat (sequences_start_nodes_ids g ! i))
                  (replicate base_counter CHR ''-'') of
        None \<Rightarrow> None
      | Some (Inl e) \<Rightarrow> Some (Inl e)
      | Some (Inr row) \<Rightarrow>
          (case extract_sequences g msa_node_ids base_counter is of
             Some (Inr rows) \<Rightarrow> Some (Inr (row # rows))
           | r \<Rightarrow> r))"

text \<open>The row of the consensus (lines 373-377).\<close>

fun write_consensus :: "graph \<Rightarrow> int list \<Rightarrow> nat list \<Rightarrow> string \<Rightarrow> error + string" where
  "write_consensus g msa_node_ids [] alignment_str = Inr alignment_str"
| "write_consensus g msa_node_ids (n # ns) alignment_str =
     (if \<not> (n < length msa_node_ids \<and> 0 \<le> msa_node_ids ! n \<and>
             nat (msa_node_ids ! n) < length alignment_str)
      then Inl OutOfBounds
      else write_consensus g msa_node_ids ns
             (alignment_str[nat (msa_node_ids ! n) := letter (nodes g ! n)]))"

text \<open>\<open>Graph::generate_msa\<close> (lines 309-379).  The cached order is swapped with the
  rigorous order for the self-check and the column assignment and swapped back
  afterwards; the result of the self-check is not used, only its assertion on the
  sizes can stop the operation.\<close>

definition msa_node_ids_of :: "graph \<Rightarrow> nat list \<Rightarrow> error + (int list \<times> nat)" where
  "msa_node_ids_of g rigorously_sorted =
     (if length rigorously_sorted \<noteq> num_nodes g then Inl OutOfBounds
      else assign_msa_ids g rigorously_sorted (replicate (num_nodes g) (- 1), 0))"

definition generate_msa :: "graph \<Rightarrow> bool \<Rightarrow> (string list \<times> graph) result" where
  "generate_msa g include_consensus =
     (case rigorous_sort g of
        None \<Rightarrow> None
      | Some (Inl e) \<Rightarrow> Some (Inl e)
      | Some (Inr rigorously_sorted) \<Rightarrow>
          (case is_topologically_sorted (g\<lparr>sorted_nodes_ids := rigorously_sorted\<rparr>) of
             Inl e \<Rightarrow> Some (Inl e)
           | Inr b \<Rightarrow>
               (case msa_node_ids_of g rigorously_sorted of
                  Inl e \<Rightarrow> Some (Inl e)
                | Inr (msa_node_ids, base_counter) \<Rightarrow>
                    (case extract_sequences g msa_node_ids base_counter [0 ..< num_sequences g] of
                       None \<Rightarrow> None
                     | Some (Inl e) \<Rightarrow> Some (Inl e)
                     | Some (Inr rows) \<Rightarrow>
                         if include_consensus then
                           (case traverse_heaviest_bundle g of
                              None \<Rightarrow> None
                            | Some (Inl e) \<Rightarrow> Some (Inl e)
                            | Some (Inr g') \<Rightarrow>
                                (case write_consensus g' msa_node_ids (consensus g')
                                        (replicate base_counter CHR ''-'') of
                                   Inl e \<Rightarrow> Some (Inl e)
                                 | Inr row \<Rightarrow> Some (Inr (rows @ [row], g'))))
                         else Some (Inr (rows, g))))))"




section \<open>Scenarios of the specification\<close>

text \<open>A scenario applies a query to the result of a construction; an error or a
  run that does not return is passed on.\<close>

definition then_consensus :: "graph result \<Rightarrow> string result" where
  "then_consensus r =
     (case r of
        Some (Inr g) \<Rightarrow> map_option (map_sum id fst) (generate_consensus g)
      | Some (Inl e) \<Rightarrow> Some (Inl e)
      | None \<Rightarrow> None)"

definition then_msa :: "graph result \<Rightarrow> string list result" where
  "then_msa r =
     (case r of
        Some (Inr g) \<Rightarrow> map_option (map_sum id fst) (generate_msa g False)
      | Some (Inl e) \<Rightarrow> Some (Inl e)
      | None \<Rightarrow> None)"

definition then_read :: "(graph \<Rightarrow> 'a) \<Rightarrow> graph result \<Rightarrow> 'a result" where
  "then_read f r = map_option (map_sum id f) r"

text \<open>Insert \<open>ACGT\<close> with weight 1, then merge \<open>ACCT\<close> with weight 1 through the
  correspondence that pairs the positions 0, 1, 2, 3 with the nodes 0, 1, 2, 3;
  at position 2 the node carries \<open>G\<close> and the sequence \<open>C\<close>.\<close>

definition acgt_then_acct :: "graph result" where
  "acgt_then_acct =
     (case createGraph_uniform ''ACGT'' 1 of
        Some (Inr g) \<Rightarrow> add_alignment_uniform g ([0, 1, 2, 3], [0, 1, 2, 3]) ''ACCT'' 1
      | r \<Rightarrow> r)"

section \<open>Notions used in the results\<close>

text \<open>
  What \<open>add_sequence\<close> is claimed to build for the positions \<open>b, ..., b + m - 1\<close> of
  a sequence, in a graph that has \<open>N\<close> nodes and \<open>E\<close> edge objects so far: the
  \<open>k\<close>-th new node carries the letter at position \<open>b + k\<close>, and the \<open>k\<close>-th new
  edge leads from the \<open>k\<close>-th to the next new node, is traversed by the sequence
  \<open>L\<close>, and weighs the sum of the weights at the two positions, added as the
  source adds them.
\<close>

definition chain_node :: "nat \<Rightarrow> nat \<Rightarrow> string \<Rightarrow> nat \<Rightarrow> nat \<Rightarrow> nat \<Rightarrow> node" where
  "chain_node N E s b m k =
     \<lparr>node_id = N + k, letter = s ! (b + k), node_type = 0,
      in_edges = (if k = 0 then [] else [E + k - 1]),
      out_edges = (if Suc k < m then [E + k] else []),
      aligned_nodes_ids = []\<rparr>"

definition chain_edge :: "nat \<Rightarrow> nat \<Rightarrow> real list \<Rightarrow> nat \<Rightarrow> nat \<Rightarrow> edge" where
  "chain_edge N L ws b k = createEdge (N + k) (N + Suc k) L (float_add (ws ! (b + k)) (ws ! (b + Suc k)))"

definition with_chain :: "graph \<Rightarrow> string \<Rightarrow> real list \<Rightarrow> nat \<Rightarrow> nat \<Rightarrow> graph" where
  "with_chain g s ws b e =
     g\<lparr>nodes := nodes g @
          map (chain_node (num_nodes g) (length (edges g)) s b (e - b)) [0 ..< e - b],
       edges := edges g @
          map (chain_edge (num_nodes g) (num_sequences g) ws b) [0 ..< e - b - 1],
       num_nodes := num_nodes g + (e - b)\<rparr>"

text \<open>
  Well-formedness of the representation: the node count is the length of the node
  vector and a node's id is its index; the handles in the adjacency of a node refer
  to edge objects that begin respectively end in that node; a node has at most one
  out-edge to any node; aligned ids are ids of nodes; every edge object joins two
  nodes and is registered in the adjacency of both.
\<close>

definition node_ok :: "graph \<Rightarrow> nat \<Rightarrow> bool" where
  "node_ok g n \<longleftrightarrow>
     node_id (nodes g ! n) = n \<and>
     list_all (\<lambda>h. h < length (edges g) \<and> begin_node_id (edges g ! h) = n)
       (out_edges (nodes g ! n)) \<and>
     list_all (\<lambda>h. h < length (edges g) \<and> end_node_id (edges g ! h) = n)
       (in_edges (nodes g ! n)) \<and>
     distinct (map (\<lambda>h. end_node_id (edges g ! h)) (out_edges (nodes g ! n))) \<and>
     list_all (\<lambda>a. a < num_nodes g) (aligned_nodes_ids (nodes g ! n))"

definition edge_ok :: "graph \<Rightarrow> nat \<Rightarrow> bool" where
  "edge_ok g h \<longleftrightarrow>
     begin_node_id (edges g ! h) < num_nodes g \<and>
     end_node_id (edges g ! h) < num_nodes g \<and>
     h \<in> set (out_edges (nodes g ! begin_node_id (edges g ! h))) \<and>
     h \<in> set (in_edges (nodes g ! end_node_id (edges g ! h)))"

definition wf_graph :: "graph \<Rightarrow> bool" where
  "wf_graph g \<longleftrightarrow>
     length (nodes g) = num_nodes g \<and>
     list_all (node_ok g) [0 ..< num_nodes g] \<and>
     list_all (edge_ok g) [0 ..< length (edges g)]"

text \<open>The handles of the edges from \<open>b\<close> to \<open>e\<close>.\<close>

definition edges_between :: "graph \<Rightarrow> nat \<Rightarrow> nat \<Rightarrow> nat list" where
  "edges_between g b e =
     filter (\<lambda>h. end_node_id (edges g ! h) = e) (out_edges (nodes g ! b))"

text \<open>Every edge has a strictly positive total weight.\<close>

definition positive_weights :: "graph \<Rightarrow> bool" where
  "positive_weights g \<longleftrightarrow> list_all (\<lambda>e. 0 < total_weight e) (edges g)"

text \<open>The cached order contains every node exactly once.\<close>

definition sorted_permutation :: "graph \<Rightarrow> bool" where
  "sorted_permutation g \<longleftrightarrow>
     distinct (sorted_nodes_ids g) \<and> set (sorted_nodes_ids g) = {0 ..< num_nodes g}"

text \<open>The first in-edge of node \<open>n\<close> has total weight 0.\<close>

definition weightless_first_in_edge :: "graph \<Rightarrow> nat \<Rightarrow> bool" where
  "weightless_first_in_edge g n \<longleftrightarrow>
     (case in_edges (nodes g ! n) of [] \<Rightarrow> False | h # hs \<Rightarrow> total_weight (edges g ! h) = 0)"

text \<open>The scores and predecessors of a traversal: both tables have one entry per
  node, a predecessor is a node or \<open>-1\<close>, and a node without predecessor has no
  positive score.\<close>

definition scores_ok :: "graph \<Rightarrow> real list \<times> int list \<Rightarrow> bool" where
  "scores_ok g sp \<longleftrightarrow>
     length (fst sp) = num_nodes g \<and> length (snd sp) = num_nodes g \<and>
     (\<forall>k < num_nodes g. - 1 \<le> snd sp ! k \<and> snd sp ! k < int (num_nodes g) \<and>
        (snd sp ! k < 0 \<longrightarrow> fst sp ! k \<le> 0))"

text \<open>The graph of a construction that returned one (the empty graph otherwise),
  and two concrete graphs: the one of the scenario above, and the one of the
  sequence \<open>AC\<close> inserted with weight 0.\<close>

definition the_graph :: "graph result \<Rightarrow> graph" where
  "the_graph r = (case r of Some (Inr g) \<Rightarrow> g | _ \<Rightarrow> empty_graph)"

definition acgt_acct_graph :: graph where
  "acgt_acct_graph = the_graph acgt_then_acct"

definition ac_weightless_graph :: graph where
  "ac_weightless_graph = the_graph (createGraph_uniform ''AC'' 0)"

text \<open>The cached order is a linearization of the graph: it holds every node once,
  and the begin of every edge has a smaller rank than its end.\<close>

definition edges_forward :: "graph \<Rightarrow> bool" where
  "edges_forward g \<longleftrightarrow>
     list_all (\<lambda>e. node_id_to_rank g ! begin_node_id e < node_id_to_rank g ! end_node_id e)
       (edges g)"

definition valid_linearization :: "graph \<Rightarrow> bool" where
  "valid_linearization g \<longleftrightarrow> sorted_permutation g \<and> edges_forward g"

text \<open>Scores as branch completion leaves them: every score is \<open>-1\<close>, for
  "unusable", or not negative.\<close>

definition scores_sound :: "graph \<Rightarrow> real list \<times> int list \<Rightarrow> bool" where
  "scores_sound g sp \<longleftrightarrow>
     scores_ok g sp \<and> (\<forall>k < num_nodes g. fst sp ! k = - 1 \<or> 0 \<le> fst sp ! k)"

text \<open>The sequence \<open>AC\<close> inserted with weight \<open>-1\<close>.\<close>

definition ac_negative_graph :: graph where
  "ac_negative_graph = the_graph (createGraph_uniform ''AC'' (- 1))"

text \<open>The choice made for node \<open>n\<close> while its in-edges are examined in branch
  completion: either no predecessor has been chosen and the score is still \<open>-1\<close>,
  or the predecessor is another node with a usable score and the score of \<open>n\<close> is
  positive.\<close>

definition chosen_ok :: "graph \<Rightarrow> nat \<Rightarrow> real list \<times> int list \<Rightarrow> bool" where
  "chosen_ok g n sp \<longleftrightarrow>
     (snd sp ! n = - 1 \<and> fst sp ! n = - 1) \<or>
     (0 \<le> snd sp ! n \<and> nat (snd sp ! n) < num_nodes g \<and> nat (snd sp ! n) \<noteq> n \<and>
      fst sp ! nat (snd sp ! n) \<noteq> - 1 \<and> 0 < fst sp ! n)"

text \<open>Two states of the tables agree outside the entry of node \<open>n\<close>.\<close>

definition same_but :: "nat \<Rightarrow> real list \<times> int list \<Rightarrow> real list \<times> int list \<Rightarrow> bool" where
  "same_but n sp sp' \<longleftrightarrow>
     length (fst sp') = length (fst sp) \<and> length (snd sp') = length (snd sp) \<and>
     (\<forall>k. k \<noteq> n \<longrightarrow> fst sp' ! k = fst sp ! k \<and> snd sp' ! k = snd sp ! k)"

text \<open>A graph in which the node with the best score has an outgoing edge: \<open>XS\<close>
  with the weights 1 and 2, then \<open>PQRS\<close> with the weights 50, 50, 1 and 1, whose
  last letter is matched with node 1.\<close>

definition xs_then_pqrs :: "graph result" where
  "xs_then_pqrs =
     (case createGraph ''XS'' [1, 2] of
        Some (Inr g) \<Rightarrow> add_alignment g ([1], [3]) ''PQRS'' [50, 50, 1, 1]
      | r \<Rightarrow> r)"

definition xs_pqrs_graph :: graph where
  "xs_pqrs_graph = the_graph xs_then_pqrs"

text \<open>The aligned-node relation: \<open>b\<close> is aligned with \<open>a\<close> when the id \<open>b\<close> is in the
  list of aligned ids of node \<open>a\<close>.  The relation is closed when it relates nodes of
  the graph only, no node with itself, is symmetric, and relates any two different
  nodes that are aligned with a common third one.\<close>

definition aligned_with :: "graph \<Rightarrow> nat \<Rightarrow> nat set" where
  "aligned_with g a = set (aligned_nodes_ids (nodes g ! a))"

definition aligned_closed :: "graph \<Rightarrow> bool" where
  "aligned_closed g \<longleftrightarrow>
     list_all (\<lambda>a. list_all (\<lambda>b. b < num_nodes g \<and> b \<noteq> a \<and> a \<in> aligned_with g b \<and>
                               list_all (\<lambda>c. c \<noteq> a \<longrightarrow> c \<in> aligned_with g a)
                                 (aligned_nodes_ids (nodes g ! b)))
                      (aligned_nodes_ids (nodes g ! a)))
       [0 ..< num_nodes g]"

text \<open>The graphs that the operations of the interface can build: a graph is
  constructed from a first sequence, and a further sequence is merged through a
  correspondence; extracting the consensus or the alignment stores the consensus
  in the graph.\<close>

inductive reachable :: "graph \<Rightarrow> bool" where
  reachable_create: "createGraph s ws = Some (Inr g) \<Longrightarrow> reachable g"
| reachable_align: "reachable g \<Longrightarrow> add_alignment g alignment s ws = Some (Inr g') \<Longrightarrow> reachable g'"
| reachable_consensus: "reachable g \<Longrightarrow> generate_consensus g = Some (Inr (c, g')) \<Longrightarrow> reachable g'"
| reachable_msa: "reachable g \<Longrightarrow> generate_msa g b = Some (Inr (rows, g')) \<Longrightarrow> reachable g'"

text \<open>Two nodes that differ at most in their lists of aligned ids.\<close>

definition same_adjacency :: "node \<Rightarrow> node \<Rightarrow> bool" where
  "same_adjacency n n' \<longleftrightarrow>
     node_id n' = node_id n \<and> letter n' = letter n \<and> node_type n' = node_type n \<and>
     in_edges n' = in_edges n \<and> out_edges n' = out_edges n"

text \<open>The graph of the sequence \<open>ACGT\<close> inserted with weight 1.\<close>

definition acgt_graph :: graph where
  "acgt_graph = the_graph (createGraph_uniform ''ACGT'' 1)"

text \<open>The edges of the graph as a relation between node ids.\<close>

definition edge_rel :: "graph \<Rightarrow> (nat \<times> nat) set" where
  "edge_rel g = (\<lambda>e. (begin_node_id e, end_node_id e)) ` set (edges g)"

text \<open>The number of nodes that a search has not reached yet.\<close>

definition unmarked :: "nat list \<Rightarrow> nat" where
  "unmarked marks = card {k. k < length marks \<and> marks ! k = 0}"

text \<open>In a list of node ids, the begin of every in-edge of an entry stands before
  the entry.\<close>

definition prefix_closed :: "graph \<Rightarrow> nat list \<Rightarrow> bool" where
  "prefix_closed g dst \<longleftrightarrow>
     (\<forall>i < length dst. \<forall>h \<in> set (in_edges (nodes g ! (dst ! i))).
        begin_node_id (edges g ! h) \<in> set (take i dst))"

text \<open>The state of the depth-first search between two visits: the marks are 0, 1
  or 2, the output holds exactly the permanently marked nodes, each once, and every
  node in it stands behind its predecessors.\<close>

definition dfs_inv :: "graph \<Rightarrow> nat list \<times> nat list \<Rightarrow> bool" where
  "dfs_inv g s \<longleftrightarrow>
     length (snd s) = num_nodes g \<and> (\<forall>k < num_nodes g. snd s ! k \<le> 2) \<and>
     distinct (fst s) \<and> set (fst s) = {k. k < num_nodes g \<and> snd s ! k = 2} \<and>
     prefix_closed g (fst s)"

text \<open>What a visit that returns does to the state: it appends to the output, keeps
  the temporarily marked nodes as they are and the permanently marked nodes
  marked.\<close>

definition dfs_post :: "nat list \<times> nat list \<Rightarrow> nat list \<times> nat list \<Rightarrow> bool" where
  "dfs_post s s' \<longleftrightarrow>
     (\<exists>ext. fst s' = fst s @ ext) \<and> length (snd s') = length (snd s) \<and>
     (\<forall>k < length (snd s). (snd s' ! k = 1 \<longleftrightarrow> snd s ! k = 1) \<and>
                            (snd s ! k = 2 \<longrightarrow> snd s' ! k = 2))"

text \<open>The result of a visit, if it returns: the assertion "Graph is not a DAG!"
  fails, or the state satisfies the given property.\<close>

definition visit_result ::
  "(nat list \<times> nat list \<Rightarrow> bool) \<Rightarrow> (nat list \<times> nat list) result \<Rightarrow> bool" where
  "visit_result Q r \<longleftrightarrow>
     (case r of None \<Rightarrow> False | Some (Inl e) \<Rightarrow> e = GraphCorruption | Some (Inr s') \<Rightarrow> Q s')"

text \<open>The graph of \<open>ACGT\<close> with a further edge from node 2 back to node 1, its order
  marked stale: the state in which \<open>add_alignment\<close> calls the sort when the
  correspondence pairs the sequence \<open>GC\<close> with the nodes 2 and 1.\<close>

definition back_edge_graph :: graph where
  "back_edge_graph =
     (case add_edge acgt_graph 2 1 2 of
        Inr g \<Rightarrow> g\<lparr>is_sorted := False\<rparr>
      | Inl e \<Rightarrow> empty_graph)"

text \<open>Node types and aligned groups: a node is primary (type 0) or a variant
  (type 1); the nodes aligned with a primary node are variants; no id occurs twice
  in a list of aligned ids; every variant is aligned with a primary node.\<close>

definition groups_ok :: "graph \<Rightarrow> bool" where
  "groups_ok g \<longleftrightarrow>
     list_all (\<lambda>a. node_type (nodes g ! a) \<le> 1 \<and>
                    distinct (aligned_nodes_ids (nodes g ! a)) \<and>
                    (node_type (nodes g ! a) = 0 \<longrightarrow>
                       list_all (\<lambda>b. node_type (nodes g ! b) = 1) (aligned_nodes_ids (nodes g ! a))) \<and>
                    (node_type (nodes g ! a) = 1 \<longrightarrow>
                       list_ex (\<lambda>p. node_type (nodes g ! p) = 0) (aligned_nodes_ids (nodes g ! a))))
       [0 ..< num_nodes g]"

text \<open>The block of a primary node in the rigorous order: the node, then the nodes
  aligned with it in the order of its list.\<close>

definition block :: "graph \<Rightarrow> nat \<Rightarrow> nat list" where
  "block g p = p # aligned_nodes_ids (nodes g ! p)"

text \<open>A list of node ids that consists of the blocks of primary nodes.\<close>

definition blocks_of :: "graph \<Rightarrow> nat list \<Rightarrow> nat list \<Rightarrow> bool" where
  "blocks_of g ps dst \<longleftrightarrow>
     list_all (\<lambda>p. p < num_nodes g \<and> node_type (nodes g ! p) = 0) ps \<and>
     dst = concat (map (block g) ps)"

text \<open>The state of the rigorous search between two visits.\<close>

definition rig_inv :: "graph \<Rightarrow> nat list \<times> nat list \<Rightarrow> bool" where
  "rig_inv g s \<longleftrightarrow>
     length (snd s) = num_nodes g \<and> (\<forall>k < num_nodes g. snd s ! k \<le> 2) \<and>
     distinct (fst s) \<and> set (fst s) = {k. k < num_nodes g \<and> snd s ! k = 2} \<and>
     (\<exists>ps. blocks_of g ps (fst s))"

text \<open>What a rigorous visit that returns does to the marks: a mark that is not 0
  stays different from 0, a mark 2 stays, and so does the mark 1 of a primary
  node.\<close>

definition rig_post :: "graph \<Rightarrow> nat list \<times> nat list \<Rightarrow> nat list \<times> nat list \<Rightarrow> bool" where
  "rig_post g s s' \<longleftrightarrow>
     length (snd s') = length (snd s) \<and>
     (\<forall>k < length (snd s). (snd s ! k \<noteq> 0 \<longrightarrow> snd s' ! k \<noteq> 0) \<and>
                            (snd s ! k = 2 \<longrightarrow> snd s' ! k = 2) \<and>
                            (snd s ! k = 1 \<and> node_type (nodes g ! k) = 0 \<longrightarrow> snd s' ! k = 1))"

text \<open>The graph of \<open>ACGT\<close> after merging \<open>CC\<close> through the correspondence that pairs
  the positions 0 and 1 with the nodes 2 and 1.\<close>

definition acgt_then_cc :: "graph result" where
  "acgt_then_cc =
     (case createGraph_uniform ''ACGT'' 1 of
        Some (Inr g) \<Rightarrow> add_alignment_uniform g ([2, 1], [0, 1]) ''CC'' 1
      | r \<Rightarrow> r)"

definition acgt_cc_graph :: graph where
  "acgt_cc_graph = the_graph acgt_then_cc"
















text \<open>The graph of \<open>ACGT\<close> after merging \<open>AT\<close> with weight 0 through the
  correspondence that pairs its positions with the nodes 0 and 3: the new edge from
  node 0 to node 3 has total weight 0 and is the second in-edge of node 3.\<close>

definition acgt_then_at :: "graph result" where
  "acgt_then_at =
     (case createGraph_uniform ''ACGT'' 1 of
        Some (Inr g) \<Rightarrow> add_alignment_uniform g ([0, 3], [0, 1]) ''AT'' 0
      | r \<Rightarrow> r)"

definition acgt_at_graph :: graph where
  "acgt_at_graph = the_graph acgt_then_at"

text \<open>The graph of \<open>GT\<close>, then \<open>CAT\<close> merged with its positions paired with a new
  node and the nodes 0 and 1, then \<open>TGT\<close> merged with its positions paired with the
  nodes 2, 3 and 1: both correspondences follow a path of the graph.\<close>

definition gt_cat_tgt :: "graph result" where
  "gt_cat_tgt =
     (case createGraph_uniform ''GT'' 1 of
        Some (Inr g) \<Rightarrow>
          (case add_alignment_uniform g ([- 1, 0, 1], [0, 1, 2]) ''CAT'' 1 of
             Some (Inr g1) \<Rightarrow> add_alignment_uniform g1 ([2, 3, 1], [0, 1, 2]) ''TGT'' 1
           | r \<Rightarrow> r)
      | r \<Rightarrow> r)"

definition gt_cat_tgt_graph :: graph where
  "gt_cat_tgt_graph = the_graph gt_cat_tgt"



section \<open>Results\<close>

subsection \<open>The rounded sum keeps the sign\<close>

lemma bit_length_pos: "0 < k \<Longrightarrow> bit_length k = Suc (bit_length (k div 2))"
  by (simp add: bit_length.simps[of k])

lemma bit_length_lower: "0 < k \<Longrightarrow> 0 < bit_length k \<and> 2 ^ (bit_length k - 1) \<le> k"
proof (induction k rule: bit_length.induct)
  case (1 k)
  note b = bit_length_pos[OF "1.prems"]
  show ?case
  proof (cases "0 < k div 2")
    case False
    then have "bit_length (k div 2) = 0" by (simp add: bit_length.simps[of "k div 2"])
    with b "1.prems" show ?thesis by simp
  next
    case True
    from "1.IH"[OF _ True] "1.prems" have ih: "0 < bit_length (k div 2)"
      "2 ^ (bit_length (k div 2) - 1) \<le> k div 2" by simp_all
    from ih(1) obtain m where m: "bit_length (k div 2) = Suc m"
      by (cases "bit_length (k div 2)") auto
    have "(2::int) ^ Suc m = 2 * 2 ^ m" by simp
    also have "\<dots> \<le> 2 * (k div 2)" using ih(2) m by simp
    also have "\<dots> \<le> k" by presburger
    finally show ?thesis unfolding b m by simp
  qed
qed

lemma bit_length_upper: "0 \<le> k \<Longrightarrow> k < 2 ^ bit_length k"
proof (induction k rule: bit_length.induct)
  case (1 k)
  show ?case
  proof (cases "k = 0")
    case True
    then show ?thesis by simp
  next
    case False
    with "1.prems" have p: "0 < k" by simp
    note b = bit_length_pos[OF p]
    have "0 \<le> k div 2" using p by simp
    from "1.IH"[OF _ this] p have "k div 2 < 2 ^ bit_length (k div 2)" by simp
    then have "k div 2 + 1 \<le> 2 ^ bit_length (k div 2)" by simp
    then have "2 * (k div 2) + 2 \<le> 2 * 2 ^ bit_length (k div 2)" by simp
    moreover have "k < 2 * (k div 2) + 2" by presburger
    ultimately show ?thesis unfolding b by simp
  qed
qed

lemma pow2_pos: "0 < pow2 k"
  by (simp add: pow2_def)

lemma pow2_powr: "pow2 k = 2 powr (of_int k)"
  by (simp add: pow2_def powr_int)

lemma pow2_mono: "j \<le> k \<Longrightarrow> pow2 j \<le> pow2 k"
  by (simp add: pow2_powr)

lemma float_exponent_le:
  assumes "0 < a"
  shows "pow2 (float_exponent a) \<le> a"
proof (cases "1 \<le> a")
  case True
  then have f: "0 < \<lfloor>a\<rfloor>" by linarith
  from bit_length_lower[OF f] obtain m where m: "bit_length \<lfloor>a\<rfloor> = Suc m"
    and le: "2 ^ m \<le> \<lfloor>a\<rfloor>"
    by (cases "bit_length \<lfloor>a\<rfloor>") auto
  have "pow2 (float_exponent a) = 2 ^ m"
    using True m by (simp add: float_exponent_def pow2_def)
  also have "\<dots> = of_int (2 ^ m)" by simp
  also have "\<dots> \<le> of_int \<lfloor>a\<rfloor>" using le by (simp only: of_int_le_iff)
  also have "\<dots> \<le> a" by simp
  finally show ?thesis .
next
  case False
  let ?m = "\<lceil>1 / a\<rceil> - 1"
  let ?b = "bit_length ?m"
  from False assms have "1 < 1 / a" by simp
  then have m0: "0 \<le> ?m" by linarith
  from bit_length_upper[OF m0] have "\<lceil>1 / a\<rceil> \<le> 2 ^ ?b" by simp
  then have "of_int \<lceil>1 / a\<rceil> \<le> (of_int (2 ^ ?b) :: real)" by (simp only: of_int_le_iff)
  moreover have "1 / a \<le> of_int \<lceil>1 / a\<rceil>" by (rule le_of_int_ceiling)
  ultimately have "1 / a \<le> (of_int (2 ^ ?b) :: real)" by (rule order_trans[rotated])
  then have "1 / a \<le> 2 ^ ?b" by simp
  then have "1 / 2 ^ ?b \<le> a" using assms by (simp add: field_simps)
  moreover have "pow2 (float_exponent a) = 1 / 2 ^ ?b"
    using False by (simp add: float_exponent_def pow2_def)
  ultimately show ?thesis by simp
qed

lemma round_to_even_ge: "\<lfloor>y\<rfloor> \<le> round_to_even y"
  by (simp add: round_to_even_def)

lemma float_round_pos:
  assumes "0 < x"
  shows "0 < float_round x"
proof -
  let ?u = "pow2 (float_exponent x - 23)"
  have ax: "\<bar>x\<bar> = x" using assms by simp
  have u: "0 < ?u" by (rule pow2_pos)
  have "?u \<le> pow2 (float_exponent x)" by (simp add: pow2_mono)
  also have "\<dots> \<le> x" using assms by (rule float_exponent_le)
  finally have "1 \<le> x / ?u" using u by (simp add: le_divide_eq)
  then have "1 \<le> \<lfloor>x / ?u\<rfloor>" by linarith
  with round_to_even_ge[of "x / ?u"] have r: "0 < round_to_even (x / ?u)" by linarith
  have "float_round x = of_int (round_to_even (x / ?u)) * ?u"
    using assms by (simp add: float_round_def)
  also have "0 < \<dots>" using r u by simp
  finally show ?thesis .
qed

lemma float_round_zero: "float_round 0 = 0"
  by (simp add: float_round_def)

lemma float_round_nonneg: "0 \<le> x \<Longrightarrow> 0 \<le> float_round x"
  using float_round_pos[of x] float_round_zero by (cases "x = 0") (auto simp: less_le)

lemma float_add_pos: "0 < x + y \<Longrightarrow> 0 < float_add x y"
  by (simp add: float_add_def float_round_pos)

lemma float_add_nonneg: "0 \<le> x + y \<Longrightarrow> 0 \<le> float_add x y"
  by (simp add: float_add_def float_round_nonneg)

lemma float_add_zero: "float_add 0 0 = 0"
  by (simp add: float_add_def float_round_zero)


subsection \<open>C1: the scenario \<open>ACGT\<close>, then \<open>ACCT\<close>\<close>

text \<open>
  C1, as the code behaves: after inserting \<open>ACGT\<close> and merging \<open>ACCT\<close> the graph has
  5 nodes, of which exactly the last is a variant, aligned with node 2;
  \<open>generate_msa\<close> gives the rows \<open>ACGT\<close> and \<open>ACCT\<close>; \<open>generate_consensus\<close> gives
  \<open>ACCT\<close>, the path of the sequence inserted last: at node 3 the two in-edges have
  equal weight and their begin nodes equal scores, and the comparison \<open>\<le>\<close> in the
  tie-break lets the later in-edge replace the earlier one.
\<close>

theorem C1_scenario_acgt_acct:
  "then_read num_nodes acgt_then_acct = Some (Inr 5) \<and>
   then_read (\<lambda>g. map node_type (nodes g)) acgt_then_acct = Some (Inr [0, 0, 0, 0, 1]) \<and>
   then_read (\<lambda>g. map aligned_nodes_ids (nodes g)) acgt_then_acct
     = Some (Inr [[], [], [4], [], [2]]) \<and>
   then_msa acgt_then_acct = Some (Inr [''ACGT'', ''ACCT'']) \<and>
   then_consensus acgt_then_acct = Some (Inr ''ACCT'')"
  by code_simp

text \<open>C1 as stated, that the consensus of the scenario is the path \<open>ACGT\<close> inserted
  first, does not hold.\<close>

theorem C1_consensus_not_first_inserted:
  "then_consensus acgt_then_acct \<noteq> Some (Inr ''ACGT'')"
  by code_simp

subsection \<open>C8: \<open>add_sequence\<close>\<close>



text \<open>
  The weight of a new edge is the sum of two values of type float, computed in that
  type: it is the exact sum whenever a float can hold it, and the nearest float
  otherwise.  For \<open>AC\<close> with the weights 16777216 and 1 the edge weighs 16777216.
\<close>

lemma add_sequence_weight_rounds:
  "add_sequence empty_graph ''AC'' [16777216, 1] 0 2 =
     Inr (0, with_chain empty_graph ''AC'' [16777216, 1] 0 2) \<and>
   map total_weight (edges (with_chain empty_graph ''AC'' [16777216, 1] 0 2)) = [16777216]"
  by code_simp



subsection \<open>Well-formedness is preserved\<close>

lemma wf_graph_iff:
  "wf_graph g \<longleftrightarrow> length (nodes g) = num_nodes g \<and> (\<forall>n < num_nodes g. node_ok g n) \<and>
     (\<forall>h < length (edges g). edge_ok g h)"
  by (auto simp: wf_graph_def list_all_iff)

lemma wf_length: "wf_graph g \<Longrightarrow> length (nodes g) = num_nodes g"
  by (simp add: wf_graph_iff)

lemma wf_in_edge:
  assumes "wf_graph g" "n < num_nodes g" "h \<in> set (in_edges (nodes g ! n))"
  shows "h < length (edges g)" "end_node_id (edges g ! h) = n"
        "begin_node_id (edges g ! h) < num_nodes g"
        "h \<in> set (out_edges (nodes g ! begin_node_id (edges g ! h)))"
proof -
  from assms have "node_ok g n" by (simp add: wf_graph_iff)
  with assms(3) show h: "h < length (edges g)" and "end_node_id (edges g ! h) = n"
    by (auto simp: node_ok_def list_all_iff)
  with assms(1) have "edge_ok g h" by (simp add: wf_graph_iff)
  then show "begin_node_id (edges g ! h) < num_nodes g"
        "h \<in> set (out_edges (nodes g ! begin_node_id (edges g ! h)))"
    by (auto simp: edge_ok_def)
qed

lemma wf_out_edge:
  assumes "wf_graph g" "n < num_nodes g" "h \<in> set (out_edges (nodes g ! n))"
  shows "h < length (edges g)" "begin_node_id (edges g ! h) = n"
        "end_node_id (edges g ! h) < num_nodes g"
        "h \<in> set (in_edges (nodes g ! end_node_id (edges g ! h)))"
proof -
  from assms have "node_ok g n" by (simp add: wf_graph_iff)
  with assms(3) show h: "h < length (edges g)" and "begin_node_id (edges g ! h) = n"
    by (auto simp: node_ok_def list_all_iff)
  with assms(1) have "edge_ok g h" by (simp add: wf_graph_iff)
  then show "end_node_id (edges g ! h) < num_nodes g"
        "h \<in> set (in_edges (nodes g ! end_node_id (edges g ! h)))"
    by (auto simp: edge_ok_def)
qed

lemma wf_empty_graph: "wf_graph empty_graph"
  by (simp add: wf_graph_def empty_graph_def)

lemma wf_add_node: "wf_graph g \<Longrightarrow> wf_graph (snd (add_node g c t))"
  unfolding wf_graph_iff
  apply (intro conjI allI impI)
    apply (simp add: add_node_def)
   apply (auto simp: add_node_def node_ok_def nth_append createNode_def list_all_iff less_Suc_eq)[1]
  apply (auto simp: add_node_def edge_ok_def nth_append)
  done

lemma find_out_edge_None:
  "find_out_edge es hs e = None \<longleftrightarrow> (\<forall>h \<in> set hs. end_node_id (es ! h) \<noteq> e)"
  by (induction hs) auto

lemma find_out_edge_Some:
  "find_out_edge es hs e = Some h \<Longrightarrow> h \<in> set hs \<and> end_node_id (es ! h) = e"
  by (induction hs) (auto split: if_splits)

text \<open>What \<open>add_edge\<close> does to a well-formed graph, in its two cases.\<close>

lemma add_edge_existing:
  assumes "find_out_edge (edges g) (out_edges (nodes g ! b)) e = Some h"
      and "b < num_nodes g" "e < num_nodes g"
  shows "add_edge g b e w =
           Inr (g\<lparr>edges := (edges g)[h := edge_add_sequence (edges g ! h) (num_sequences g) w]\<rparr>)"
  using assms by (simp add: add_edge_def)

lemma add_edge_new:
  assumes "find_out_edge (edges g) (out_edges (nodes g ! b)) e = None"
      and "b < num_nodes g" "e < num_nodes g" "length (nodes g) = num_nodes g"
  shows "\<exists>ns. add_edge g b e w =
           Inr (g\<lparr>edges := edges g @ [createEdge b e (num_sequences g) w], nodes := ns\<rparr>) \<and>
         length ns = num_nodes g \<and>
         (\<forall>n < num_nodes g.
            ns ! n = (nodes g ! n)
              \<lparr>in_edges := in_edges (nodes g ! n) @ (if n = e then [length (edges g)] else []),
               out_edges := out_edges (nodes g ! n) @ (if n = b then [length (edges g)] else [])\<rparr>)"
  using assms
  by (auto simp: add_edge_def Let_def nth_list_update add_in_edge_def add_out_edge_def)

lemma wf_add_edge:
  assumes "wf_graph g" and "add_edge g b e w = Inr g'"
  shows "wf_graph g'"
proof -
  from assms(2) have b: "b < num_nodes g" and e: "e < num_nodes g"
    by (auto simp: add_edge_def split: if_splits)
  have len: "length (nodes g) = num_nodes g" using assms(1) by (rule wf_length)
  have nok: "\<And>n. n < num_nodes g \<Longrightarrow> node_ok g n" and eok: "\<And>h. h < length (edges g) \<Longrightarrow> edge_ok g h"
    using assms(1) by (auto simp: wf_graph_iff)
  show ?thesis
  proof (cases "find_out_edge (edges g) (out_edges (nodes g ! b)) e")
    case (Some h)
    then have g': "g' = g\<lparr>edges := (edges g)[h := edge_add_sequence (edges g ! h) (num_sequences g) w]\<rparr>"
      using add_edge_existing[OF Some b e, of w] assms(2) by simp
    have same: "begin_node_id (edges g' ! k) = begin_node_id (edges g ! k) \<and>
                     end_node_id (edges g' ! k) = end_node_id (edges g ! k)"
      for k
      by (cases "k = h"; cases "h < length (edges g)")
         (simp_all add: g' edge_add_sequence_def list_update_beyond)
    show ?thesis
      unfolding wf_graph_iff using len nok eok
      by (simp add: node_ok_def edge_ok_def same) (simp add: g')
  next
    case None
    from add_edge_new[OF None b e len, of w] assms(2) obtain ns where
      g': "g' = g\<lparr>edges := edges g @ [createEdge b e (num_sequences g) w], nodes := ns\<rparr>"
      and lns: "length ns = num_nodes g"
      and ns: "\<And>n. n < num_nodes g \<Longrightarrow> ns ! n = (nodes g ! n)
              \<lparr>in_edges := in_edges (nodes g ! n) @ (if n = e then [length (edges g)] else []),
               out_edges := out_edges (nodes g ! n) @ (if n = b then [length (edges g)] else [])\<rparr>"
      by auto
    have fresh: "\<forall>h \<in> set (out_edges (nodes g ! b)). end_node_id (edges g ! h) \<noteq> e"
      using None by (simp add: find_out_edge_None)
    have "node_ok g' n" if "n < num_nodes g" for n
      using nok[OF that] ns[OF that] fresh that
      by (auto simp: node_ok_def g' list_all_iff nth_append createEdge_def cong: map_cong)
    moreover have "edge_ok g' h" if "h < Suc (length (edges g))" for h
    proof (cases "h = length (edges g)")
      case True
      then show ?thesis using b e ns by (simp add: edge_ok_def g' createEdge_def)
    next
      case False
      with that have h: "h < length (edges g)" by simp
      from eok[OF h] show ?thesis
        using h ns by (auto simp: edge_ok_def g' nth_append)
    qed
    ultimately show ?thesis
      unfolding wf_graph_iff using lns by (simp add: g')
  qed
qed

subsection \<open>C5: \<open>add_edge\<close> merges\<close>

lemma find_out_edge_filter:
  "find_out_edge es hs e =
     (case filter (\<lambda>h. end_node_id (es ! h) = e) hs of [] \<Rightarrow> None | h # _ \<Rightarrow> Some h)"
  by (induction hs) auto

lemma distinct_map_filter_le1:
  "distinct (map f xs) \<Longrightarrow> length (filter (\<lambda>x. f x = y) xs) \<le> 1"
  by (induction xs) (auto simp: filter_empty_conv image_iff)

lemma wf_edges_between_le1:
  assumes "wf_graph g" "x < num_nodes g"
  shows "length (edges_between g x y) \<le> 1"
proof -
  from assms have "node_ok g x" by (simp add: wf_graph_iff)
  then show ?thesis
    unfolding edges_between_def by (intro distinct_map_filter_le1) (simp add: node_ok_def)
qed

lemma edges_between_after_merge:
  assumes "edges_between g b e = h # hs"
  shows "edges_between (g\<lparr>edges := (edges g)[h := edge_add_sequence (edges g ! h) i w]\<rparr>) b e
           = edges_between g b e"
proof -
  have "end_node_id ((edges g)[h := edge_add_sequence (edges g ! h) i w] ! k) = end_node_id (edges g ! k)" for k
    by (cases "k = h"; cases "h < length (edges g)")
       (simp_all add: edge_add_sequence_def list_update_beyond)
  then show ?thesis by (simp add: edges_between_def)
qed

lemma edges_between_after_new:
  assumes "wf_graph g" "b < num_nodes g" "e < num_nodes g" "edges_between g b e = []"
      and "add_edge g b e w = Inr g'"
  shows "edges_between g' b e = [length (edges g)]"
    and "edges g' = edges g @ [createEdge b e (num_sequences g) w]"
proof -
  have none: "find_out_edge (edges g) (out_edges (nodes g ! b)) e = None"
    using assms(4) by (simp add: find_out_edge_filter edges_between_def)
  from add_edge_new[OF none assms(2,3) wf_length[OF assms(1)], of w] assms(5) obtain ns where
      g': "g' = g\<lparr>edges := edges g @ [createEdge b e (num_sequences g) w], nodes := ns\<rparr>"
      and ns: "\<And>n. n < num_nodes g \<Longrightarrow> ns ! n = (nodes g ! n)
              \<lparr>in_edges := in_edges (nodes g ! n) @ (if n = e then [length (edges g)] else []),
               out_edges := out_edges (nodes g ! n) @ (if n = b then [length (edges g)] else [])\<rparr>"
    by auto
  show "edges g' = edges g @ [createEdge b e (num_sequences g) w]" by (simp add: g')
  have old: "\<forall>h \<in> set (out_edges (nodes g ! b)). h < length (edges g) \<and> end_node_id (edges g ! h) \<noteq> e"
    using wf_out_edge(1)[OF assms(1,2)] none by (auto simp: find_out_edge_None)
  then have "filter (\<lambda>h. end_node_id ((edges g @ [createEdge b e (num_sequences g) w]) ! h) = e)
               (out_edges (nodes g ! b)) = []"
    by (auto simp: filter_empty_conv nth_append)
  then show "edges_between g' b e = [length (edges g)]"
    using ns[OF assms(2)] by (simp add: edges_between_def g' createEdge_def)
qed

text \<open>
  C5: in a well-formed graph \<open>add_edge\<close> between two of its nodes returns; the graph
  stays well-formed, so that there is at most one edge for every ordered pair of
  nodes, and there is exactly one from \<open>b\<close> to \<open>e\<close> afterwards.  If there was none, a
  new edge object is appended; if there was one, no edge is created: its total
  weight grows by \<open>w\<close> and it gets the current sequence index as a further label.
  Hence, when two sequences \<open>num_sequences g\<close> and \<open>i\<close> traverse a pair of nodes that
  was not joined before, the pair is joined by one edge whose total weight is the
  sum of the two contributions.
\<close>

theorem C5_add_edge_merges:
  assumes "wf_graph g" and "b < num_nodes g" and "e < num_nodes g"
  shows "\<exists>g'. add_edge g b e w = Inr g' \<and> wf_graph g' \<and>
           (\<forall>x < num_nodes g'. \<forall>y. length (edges_between g' x y) \<le> 1) \<and>
           length (edges_between g' b e) = 1 \<and>
           (case edges_between g b e of
              [] \<Rightarrow> edges g' = edges g @ [createEdge b e (num_sequences g) w]
            | h # _ \<Rightarrow>
                nodes g' = nodes g \<and> length (edges g') = length (edges g) \<and>
                edges g' = (edges g)[h := edge_add_sequence (edges g ! h) (num_sequences g) w] \<and>
                total_weight (edges g' ! h) = total_weight (edges g ! h) + w \<and>
                sequence_labels (edges g' ! h) = sequence_labels (edges g ! h) @ [num_sequences g]) \<and>
           (edges_between g b e = [] \<longrightarrow>
              (\<forall>i w2. \<exists>g2. add_edge (g'\<lparr>num_sequences := i\<rparr>) b e w2 = Inr g2 \<and>
                 edges_between g2 b e = [length (edges g)] \<and>
                 length (edges g2) = Suc (length (edges g)) \<and>
                 total_weight (edges g2 ! length (edges g)) = w + w2 \<and>
                 sequence_labels (edges g2 ! length (edges g)) = [num_sequences g, i]))"
proof -
  have "\<exists>g'. add_edge g b e w = Inr g'"
    using assms(2,3)
    by (cases "find_out_edge (edges g) (out_edges (nodes g ! b)) e") (simp_all add: add_edge_def Let_def)
  then obtain g' where g': "add_edge g b e w = Inr g'" ..
  have wf': "wf_graph g'" using wf_add_edge[OF assms(1) g'] .
  have uniq: "\<forall>x < num_nodes g'. \<forall>y. length (edges_between g' x y) \<le> 1"
    using wf_edges_between_le1[OF wf'] by simp
  have le1: "length (edges_between g b e) \<le> 1" using wf_edges_between_le1[OF assms(1,2)] .
  show ?thesis
  proof (cases "edges_between g b e")
    case Nil
    note new = edges_between_after_new[OF assms Nil g']
    have nn': "num_nodes g' = num_nodes g" using g' by (auto simp: add_edge_def Let_def split: if_splits option.splits)
    have second: "\<exists>g2. add_edge (g'\<lparr>num_sequences := i\<rparr>) b e w2 = Inr g2 \<and>
                 edges_between g2 b e = [length (edges g)] \<and>
                 length (edges g2) = Suc (length (edges g)) \<and>
                 total_weight (edges g2 ! length (edges g)) = w + w2 \<and>
                 sequence_labels (edges g2 ! length (edges g)) = [num_sequences g, i]" for i w2
    proof -
      let ?g1 = "g'\<lparr>num_sequences := i\<rparr>"
      have eb: "edges_between ?g1 b e = [length (edges g)]" using new(1) by (simp add: edges_between_def)
      then have f: "find_out_edge (edges ?g1) (out_edges (nodes ?g1 ! b)) e = Some (length (edges g))"
        by (simp add: find_out_edge_filter edges_between_def)
      have "add_edge ?g1 b e w2 = Inr (?g1\<lparr>edges := (edges ?g1)[length (edges g) :=
               edge_add_sequence (edges ?g1 ! length (edges g)) (num_sequences ?g1) w2]\<rparr>)"
        by (rule add_edge_existing[OF f]) (use assms nn' in simp_all)
      moreover have "edges_between (?g1\<lparr>edges := (edges ?g1)[length (edges g) :=
               edge_add_sequence (edges ?g1 ! length (edges g)) (num_sequences ?g1) w2]\<rparr>) b e = [length (edges g)]"
        using edges_between_after_merge[OF eb] eb by simp
      ultimately show ?thesis
        using new(2) by (simp add: edge_add_sequence_def createEdge_def)
    qed
    show ?thesis
      using g' wf' uniq new second Nil by simp
  next
    case (Cons h hs)
    with le1 have hs: "hs = []" by simp
    have f: "find_out_edge (edges g) (out_edges (nodes g ! b)) e = Some h"
      using Cons by (simp add: find_out_edge_filter edges_between_def)
    have "h \<in> set (out_edges (nodes g ! b))" using find_out_edge_Some[OF f] by simp
    then have hlt: "h < length (edges g)" using wf_out_edge(1)[OF assms(1,2)] by simp
    have eq: "g' = g\<lparr>edges := (edges g)[h := edge_add_sequence (edges g ! h) (num_sequences g) w]\<rparr>"
      using add_edge_existing[OF f assms(2,3), of w] g' by simp
    have "edges_between g' b e = [h]"
      unfolding eq using edges_between_after_merge[OF Cons] Cons hs by simp
    then show ?thesis
      using g' wf' uniq Cons hlt by (simp add: eq edge_add_sequence_def)
  qed
qed

text \<open>Two nodes without an edge, then two traversals of the pair with the weights 2
  and 4 by the sequences 0 and 1.\<close>

theorem C5_add_edge_merges_witness:
  "wf_graph (with_chain empty_graph ''A'' [1] 0 1) \<and>
   wf_graph (snd (add_node (with_chain empty_graph ''A'' [1] 0 1) CHR ''C'' 0)) \<and>
   (\<exists>g' g2. add_edge (snd (add_node (with_chain empty_graph ''A'' [1] 0 1) CHR ''C'' 0)) 0 1 2 = Inr g' \<and>
      add_edge (g'\<lparr>num_sequences := 1\<rparr>) 0 1 4 = Inr g2 \<and>
      edges_between g2 0 1 = [0] \<and> length (edges g2) = 1 \<and>
      total_weight (edges g2 ! 0) = 6 \<and> sequence_labels (edges g2 ! 0) = [0, 1])"
proof -
  let ?g = "snd (add_node (with_chain empty_graph ''A'' [1] 0 1) CHR ''C'' 0)"
  have wf0: "wf_graph (with_chain empty_graph ''A'' [1] 0 1)"
    by (simp add: wf_graph_def with_chain_def empty_graph_def chain_node_def node_ok_def)
  then have wf: "wf_graph ?g" by (rule wf_add_node)
  have b: "0 < num_nodes ?g" and e: "1 < num_nodes ?g"
    by (simp_all add: add_node_def with_chain_def empty_graph_def)
  have none: "edges_between ?g 0 1 = []"
    by (simp add: edges_between_def add_node_def with_chain_def empty_graph_def chain_node_def)
  have len: "length (edges ?g) = 0" "num_sequences ?g = 0"
    by (simp_all add: add_node_def with_chain_def empty_graph_def)
  from C5_add_edge_merges[OF wf b e, of 2] obtain g' where
    g': "add_edge ?g 0 1 2 = Inr g'" and
    two: "edges_between ?g 0 1 = [] \<longrightarrow>
              (\<forall>i w2. \<exists>g2. add_edge (g'\<lparr>num_sequences := i\<rparr>) 0 1 w2 = Inr g2 \<and>
                 edges_between g2 0 1 = [length (edges ?g)] \<and>
                 length (edges g2) = Suc (length (edges ?g)) \<and>
                 total_weight (edges g2 ! length (edges ?g)) = 2 + w2 \<and>
                 sequence_labels (edges g2 ! length (edges ?g)) = [num_sequences ?g, i])"
    by blast
  from two none obtain g2 where "add_edge (g'\<lparr>num_sequences := 1\<rparr>) 0 1 4 = Inr g2 \<and>
                 edges_between g2 0 1 = [length (edges ?g)] \<and>
                 length (edges g2) = Suc (length (edges ?g)) \<and>
                 total_weight (edges g2 ! length (edges ?g)) = 2 + 4 \<and>
                 sequence_labels (edges g2 ! length (edges ?g)) = [num_sequences ?g, 1]"
    by blast
  with g' len wf0 wf show ?thesis by auto
qed

subsection \<open>C10: no read of \<open>scores[-1]\<close>\<close>

lemma nth_list_update_total:
  "xs[i := x] ! k = (if i = k \<and> i < length xs then x else xs ! k)"
  by (cases "i < length xs") (auto simp: list_update_beyond)

lemma relax_edge_error: "relax_edge e n sp = Inl err \<Longrightarrow> err = OutOfBounds"
  by (auto simp: relax_edge_def split: prod.splits if_splits)

lemma relax_edge_ok:
  assumes "scores_ok g sp" "n < num_nodes g" "0 < total_weight e" "begin_node_id e < num_nodes g"
  shows "\<exists>sp'. relax_edge e n sp = Inr sp' \<and> scores_ok g sp'"
proof -
  obtain sc pr where sp: "sp = (sc, pr)" by (cases sp)
  from assms(1,2) have inv: "pr ! n < 0 \<longrightarrow> sc ! n \<le> 0" by (simp add: scores_ok_def sp)
  show ?thesis
    using assms inv
    by (auto simp: relax_edge_def sp scores_ok_def nth_list_update)
qed

lemma relax_in_edges_ok:
  assumes "scores_ok g sp" "n < num_nodes g"
      and "\<forall>h \<in> set hs. 0 < total_weight (edges g ! h) \<and> begin_node_id (edges g ! h) < num_nodes g"
  shows "\<exists>sp'. relax_in_edges (edges g) n hs sp = Inr sp' \<and> scores_ok g sp'"
  using assms
proof (induction hs arbitrary: sp)
  case Nil
  then show ?case by simp
next
  case (Cons h hs)
  from relax_edge_ok[OF Cons.prems(1,2), of "edges g ! h"] Cons.prems(3)
  obtain sp1 where 1: "relax_edge (edges g ! h) n sp = Inr sp1" "scores_ok g sp1" by auto
  from Cons.IH[OF 1(2) Cons.prems(2)] Cons.prems(3) 1(1) show ?case by simp
qed

lemma relax_valid_in_edges_ok:
  assumes "scores_ok g sp" "n < num_nodes g"
      and "\<forall>h \<in> set hs. 0 < total_weight (edges g ! h) \<and> begin_node_id (edges g ! h) < num_nodes g"
  shows "\<exists>sp'. relax_valid_in_edges (edges g) n hs sp = Inr sp' \<and> scores_ok g sp'"
  using assms
proof (induction hs arbitrary: sp)
  case Nil
  then show ?case by simp
next
  case (Cons h hs)
  show ?case
  proof (cases "fst sp ! begin_node_id (edges g ! h) = - 1")
    case True
    with Cons.IH[OF Cons.prems(1,2)] Cons.prems(3) show ?thesis by simp
  next
    case False
    from relax_edge_ok[OF Cons.prems(1,2), of "edges g ! h"] Cons.prems(3)
    obtain sp1 where 1: "relax_edge (edges g ! h) n sp = Inr sp1" "scores_ok g sp1" by auto
    from Cons.IH[OF 1(2) Cons.prems(2)] Cons.prems(3) 1(1) False show ?thesis by simp
  qed
qed

lemma wf_positive_in_edges:
  assumes "wf_graph g" "positive_weights g" "n < num_nodes g"
  shows "\<forall>h \<in> set (in_edges (nodes g ! n)).
           0 < total_weight (edges g ! h) \<and> begin_node_id (edges g ! h) < num_nodes g"
  using wf_in_edge(1,3)[OF assms(1,3)] assms(2)
  by (auto simp: positive_weights_def list_all_length)

lemma scores_ok_add:
  assumes "scores_ok g (sc, pr)" "n < num_nodes g"
  shows "scores_ok g (if pr ! n \<noteq> - 1 then sc[n := float_add (sc ! n) (sc ! nat (pr ! n))] else sc, pr)"
  using assms by (auto simp: scores_ok_def nth_list_update)

lemma score_nodes_ok:
  assumes "wf_graph g" "positive_weights g" "scores_ok g (sc, pr)" "\<forall>n \<in> set ns. n < num_nodes g"
      and "mx < num_nodes g"
  shows "\<exists>sc' pr' mx'. score_nodes g ns (sc, pr, mx) = Inr (sc', pr', mx') \<and>
           scores_ok g (sc', pr') \<and> mx' < num_nodes g"
  using assms(3-)
proof (induction ns arbitrary: sc pr mx)
  case Nil
  then show ?case by simp
next
  case (Cons n ns)
  then have n: "n < num_nodes g" by simp
  from relax_in_edges_ok[OF Cons.prems(1) n wf_positive_in_edges[OF assms(1,2) n]]
  obtain sc1 pr1 where 1: "relax_in_edges (edges g) n (in_edges (nodes g ! n)) (sc, pr) = Inr (sc1, pr1)"
    "scores_ok g (sc1, pr1)" by auto
  let ?sc2 = "if pr1 ! n \<noteq> - 1 then sc1[n := float_add (sc1 ! n) (sc1 ! nat (pr1 ! n))] else sc1"
  have 2: "scores_ok g (?sc2, pr1)" using scores_ok_add[OF 1(2) n] .
  have "\<exists>sc' pr' mx'. score_nodes g ns (?sc2, pr1, if ?sc2 ! mx < ?sc2 ! n then n else mx) = Inr (sc', pr', mx') \<and>
           scores_ok g (sc', pr') \<and> mx' < num_nodes g"
    by (rule Cons.IH[OF 2]) (use Cons.prems n in auto)
  then show ?case using 1(1) by (simp add: Let_def)
qed


lemma invalidate_in_edges_ok:
  "scores_ok g (sc, pr) \<Longrightarrow> scores_ok g (invalidate_in_edges es n hs sc, pr)"
proof (induction hs arbitrary: sc)
  case Nil
  then show ?case by simp
next
  case (Cons h hs)
  have "scores_ok g (sc[begin_node_id (es ! h) := - 1], pr)"
    using Cons.prems by (auto simp: scores_ok_def nth_list_update_total)
  with Cons show ?case by simp
qed

lemma invalidate_siblings_ok:
  "scores_ok g (sc, pr) \<Longrightarrow> scores_ok g (invalidate_siblings g n hs sc, pr)"
  by (induction hs arbitrary: sc) (simp_all add: invalidate_in_edges_ok)

lemma scores_ok_reset:
  assumes "scores_ok g (sc, pr)"
  shows "scores_ok g (sc[n := - 1], pr[n := - 1])"
  using assms by (auto simp: scores_ok_def nth_list_update_total)

lemma complete_nodes_ok:
  assumes "wf_graph g" "positive_weights g" "scores_ok g (sc, pr)" "\<forall>n \<in> set ns. n < num_nodes g"
      and "mx < num_nodes g"
  shows "\<exists>sc' pr' ms' mx'. complete_nodes g ns (sc, pr, ms, mx) = Inr (sc', pr', ms', mx') \<and>
           scores_ok g (sc', pr') \<and> mx' < num_nodes g"
  using assms(3-)
proof (induction ns arbitrary: sc pr ms mx)
  case Nil
  then show ?case by simp
next
  case (Cons n ns)
  then have n: "n < num_nodes g" by simp
  from relax_valid_in_edges_ok[OF scores_ok_reset[OF Cons.prems(1), of n] n wf_positive_in_edges[OF assms(1,2) n]]
  obtain sc1 pr1 where 1: "relax_valid_in_edges (edges g) n (in_edges (nodes g ! n))
        (sc[n := - 1], pr[n := - 1]) = Inr (sc1, pr1)"
    "scores_ok g (sc1, pr1)" by auto
  let ?sc2 = "if pr1 ! n \<noteq> - 1 then sc1[n := float_add (sc1 ! n) (sc1 ! nat (pr1 ! n))] else sc1"
  have 2: "scores_ok g (?sc2, pr1)" using scores_ok_add[OF 1(2) n] .
  have a: "\<exists>sc' pr' ms' mx'. complete_nodes g ns (?sc2, pr1, ?sc2 ! n, n) = Inr (sc', pr', ms', mx') \<and>
           scores_ok g (sc', pr') \<and> mx' < num_nodes g"
    by (rule Cons.IH[OF 2]) (use Cons.prems n in auto)
  have b: "\<exists>sc' pr' ms' mx'. complete_nodes g ns (?sc2, pr1, ms, mx) = Inr (sc', pr', ms', mx') \<and>
           scores_ok g (sc', pr') \<and> mx' < num_nodes g"
    by (rule Cons.IH[OF 2]) (use Cons.prems n in auto)
  show ?case using 1(1) a b by (simp add: Let_def)
qed

lemma branch_completion_ok:
  assumes "wf_graph g" "positive_weights g" "scores_ok g (sc, pr)"
      and "\<forall>n \<in> set (sorted_nodes_ids g). n < num_nodes g"
      and "rank < length (sorted_nodes_ids g)"
  shows "\<exists>sc' pr' mx'. branch_completion g sc pr rank = Inr (sc', pr', mx') \<and>
           scores_ok g (sc', pr') \<and> mx' < num_nodes g"
proof -
  let ?n = "sorted_nodes_ids g ! rank"
  have n: "?n < num_nodes g" using assms(4,5) by simp
  have "\<forall>n \<in> set (drop (Suc rank) (sorted_nodes_ids g)). n < num_nodes g"
    using assms(4) by (meson in_set_dropD)
  from complete_nodes_ok[OF assms(1,2) invalidate_siblings_ok[OF assms(3)] this, of 0 ?n "out_edges (nodes g ! ?n)" 0] n
  obtain sc' pr' ms' mx' where
    "complete_nodes g (drop (Suc rank) (sorted_nodes_ids g))
       (invalidate_siblings g ?n (out_edges (nodes g ! ?n)) sc, pr, 0, 0) = Inr (sc', pr', ms', mx')"
    "scores_ok g (sc', pr')" "mx' < num_nodes g"
    by auto
  then show ?thesis using assms(5) by (simp add: branch_completion_def Let_def)
qed

lemma node_id_to_rank_bound:
  assumes "k < num_nodes g"
  shows "length (node_id_to_rank g) = num_nodes g" "node_id_to_rank g ! k < num_nodes g"
proof -
  have *: "length (fold (\<lambda>i rank. rank[f i := i]) js r) = length r \<and>
        ((\<forall>k < length r. r ! k < N) \<longrightarrow> (\<forall>i \<in> set js. i < N) \<longrightarrow>
           (\<forall>k < length r. fold (\<lambda>i rank. rank[f i := i]) js r ! k < N))"
    for f js N and r :: "nat list"
    by (induction js arbitrary: r) (auto simp: nth_list_update_total)
  show "length (node_id_to_rank g) = num_nodes g"
    using * by (simp add: node_id_to_rank_def)
  show "node_id_to_rank g ! k < num_nodes g"
    unfolding node_id_to_rank_def
    using *[of "\<lambda>i. sorted_nodes_ids g ! i" "[0 ..< num_nodes g]" "replicate (num_nodes g) 0" "num_nodes g"] assms
    by simp
qed



text \<open>If the loop of branch completions returns, it returns scores, not an error.\<close>

lemma completion_loop_ok:
  assumes "wf_graph g" "positive_weights g"
      and "\<forall>n \<in> set (sorted_nodes_ids g). n < num_nodes g"
      and "length (sorted_nodes_ids g) = num_nodes g"
      and "completion_loop g (node_id_to_rank g) st = Some r"
      and "scores_ok g (fst st, fst (snd st))" "snd (snd st) < num_nodes g"
  shows "\<exists>sc' pr' mx'. r = Inr (sc', pr', mx') \<and> scores_ok g (sc', pr') \<and> mx' < num_nodes g"
proof -
  let ?P = "\<lambda>g' ranks st r. g' = g \<longrightarrow> ranks = node_id_to_rank g \<longrightarrow>
              scores_ok g (fst st, fst (snd st)) \<longrightarrow> snd (snd st) < num_nodes g \<longrightarrow>
              (\<exists>sc' pr' mx'. r = Inr (sc', pr', mx') \<and> scores_ok g (sc', pr') \<and> mx' < num_nodes g)"
  have "?P g (node_id_to_rank g) st r"
  proof (rule completion_loop.raw_induct[where P = ?P, OF _ assms(5)], intro impI)
    fix f g' ranks st r
    assume IH: "\<And>g' ranks st r. f g' ranks st = Some r \<Longrightarrow> ?P g' ranks st r"
      and body: "(case st of
        (scores, predecessors, max_score_id) \<Rightarrow>
          if out_edges (nodes g' ! max_score_id) = [] then Some (Inr st)
          else case branch_completion g' scores predecessors (ranks ! max_score_id) of
               Inl e \<Rightarrow> Some (Inl e) | Inr st' \<Rightarrow> f g' ranks st') = Some r"
      and g': "g' = g" and ranks: "ranks = node_id_to_rank g"
      and ok: "scores_ok g (fst st, fst (snd st))" and mx: "snd (snd st) < num_nodes g"
    obtain sc pr m where st: "st = (sc, pr, m)" by (cases st)
    show "\<exists>sc' pr' mx'. r = Inr (sc', pr', mx') \<and> scores_ok g (sc', pr') \<and> mx' < num_nodes g"
    proof (cases "out_edges (nodes g ! m) = []")
      case True
      with body ok mx show ?thesis by (auto simp: st g')
    next
      case False
      have rk: "node_id_to_rank g ! m < length (sorted_nodes_ids g)"
        using node_id_to_rank_bound(2)[of m g] mx assms(4) by (simp add: st)
      from branch_completion_ok[OF assms(1,2) _ assms(3) rk, of sc pr] ok
      obtain sc1 pr1 m1 where bc: "branch_completion g sc pr (node_id_to_rank g ! m) = Inr (sc1, pr1, m1)"
        "scores_ok g (sc1, pr1)" "m1 < num_nodes g"
        by (auto simp: st)
      with body False have "f g ranks (sc1, pr1, m1) = Some r"
        by (simp add: st g' ranks)
      from IH[OF this] bc ranks show ?thesis by simp
    qed
  qed
  with assms(6,7) show ?thesis by simp
qed

lemma traverse_no_error:
  assumes "wf_graph g" "positive_weights g" "sorted_permutation g" "0 < num_nodes g"
  shows "traverse_heaviest_bundle g \<noteq> Some (Inl e)"
proof -
  have ids: "\<forall>n \<in> set (sorted_nodes_ids g). n < num_nodes g"
    using assms(3) by (simp add: sorted_permutation_def)
  have len: "length (sorted_nodes_ids g) = num_nodes g"
    using assms(3) distinct_card[of "sorted_nodes_ids g"] by (simp add: sorted_permutation_def)
  have init: "scores_ok g (replicate (num_nodes g) 0, replicate (num_nodes g) (- 1))"
    by (simp add: scores_ok_def)
  from score_nodes_ok[OF assms(1,2) init ids assms(4)]
  obtain sc pr mx where sn: "score_nodes g (sorted_nodes_ids g)
       (replicate (num_nodes g) 0, replicate (num_nodes g) (- 1), 0) = Inr (sc, pr, mx)"
    and ok: "scores_ok g (sc, pr)" and mx: "mx < num_nodes g" by blast
  have cl: "completion_loop g (node_id_to_rank g) (sc, pr, mx) \<noteq> Some (Inl e')" for e'
    using completion_loop_ok[OF assms(1,2) ids len, of "(sc, pr, mx)" "Inl e'"] ok mx by auto
  show ?thesis
    using sn cl assms(4)
    by (auto simp: traverse_heaviest_bundle_def split: option.splits sum.splits if_splits)
qed

subsubsection \<open>A first in-edge without weight\<close>

lemma relax_in_edges_error: "relax_in_edges es n hs sp = Inl err \<Longrightarrow> err = OutOfBounds"
  by (induction hs arbitrary: sp) (auto split: sum.splits dest: relax_edge_error)

lemma relax_edge_frame:
  assumes "relax_edge e n (sc, pr) = Inr (sc', pr')"
  shows "length sc' = length sc \<and> length pr' = length pr \<and>
         (\<forall>k. k \<noteq> n \<longrightarrow> sc' ! k = sc ! k \<and> pr' ! k = pr ! k)"
  using assms by (auto simp: relax_edge_def split: if_splits)

lemma relax_in_edges_frame:
  assumes "relax_in_edges es n hs (sc, pr) = Inr (sc', pr')"
  shows "length sc' = length sc \<and> length pr' = length pr \<and>
         (\<forall>k. k \<noteq> n \<longrightarrow> sc' ! k = sc ! k \<and> pr' ! k = pr ! k)"
  using assms
proof (induction hs arbitrary: sc pr)
  case Nil
  then show ?case by simp
next
  case (Cons h hs)
  from Cons.prems obtain sc1 pr1 where 1: "relax_edge (es ! h) n (sc, pr) = Inr (sc1, pr1)"
    and 2: "relax_in_edges es n hs (sc1, pr1) = Inr (sc', pr')"
    by (auto split: sum.splits)
  from relax_edge_frame[OF 1] Cons.IH[OF 2] show ?case by simp
qed

lemma relax_in_edges_weightless:
  assumes "weightless_first_in_edge g n" "sc ! n = 0" "pr ! n = - 1"
  shows "relax_in_edges (edges g) n (in_edges (nodes g ! n)) (sc, pr) = Inl OutOfBounds"
  using assms
  by (cases "in_edges (nodes g ! n)") (simp_all add: weightless_first_in_edge_def relax_edge_def)

lemma score_nodes_weightless:
  assumes "weightless_first_in_edge g n" "n \<in> set ns" "distinct ns"
      and "\<forall>m \<in> set ns. sc ! m = 0 \<and> pr ! m = - 1"
  shows "score_nodes g ns (sc, pr, mx) = Inl OutOfBounds"
  using assms(2-)
proof (induction ns arbitrary: sc pr mx)
  case Nil
  then show ?case by simp
next
  case (Cons m ns)
  show ?case
  proof (cases "m = n")
    case True
    with relax_in_edges_weightless[OF assms(1), of sc pr] Cons.prems show ?thesis by simp
  next
    case False
    show ?thesis
    proof (cases "relax_in_edges (edges g) m (in_edges (nodes g ! m)) (sc, pr)")
      case (Inl e)
      with relax_in_edges_error[OF Inl] show ?thesis by simp
    next
      case (Inr sp1)
      obtain sc1 pr1 where sp1: "sp1 = (sc1, pr1)" by (cases sp1)
      note fr = relax_in_edges_frame[OF Inr[unfolded sp1]]
      let ?sc2 = "if pr1 ! m \<noteq> - 1 then sc1[m := float_add (sc1 ! m) (sc1 ! nat (pr1 ! m))] else sc1"
      have "\<forall>k \<in> set ns. ?sc2 ! k = 0 \<and> pr1 ! k = - 1"
        using fr Cons.prems by (auto simp: nth_list_update_total)
      moreover have "n \<in> set ns" "distinct ns" using Cons.prems False by auto
      ultimately have "score_nodes g ns (?sc2, pr1, if ?sc2 ! mx < ?sc2 ! m then m else mx) = Inl OutOfBounds"
        by (intro Cons.IH) 
      with Inr sp1 show ?thesis by (simp add: Let_def)
    qed
  qed
qed

text \<open>
  C10 expects the read outside the vector for every graph that contains an edge of
  total weight 0.  It does not happen for \<open>ACGT\<close> with weight 1 after merging \<open>AT\<close>
  with weight 0 along the nodes 0 and 3: the edge from node 0 to node 3 has total
  weight 0, but it is the second in-edge of node 3, whose score is 2 by then; no
  node has a first in-edge of weight 0, and the consensus \<open>ACGT\<close> is returned.
\<close>

theorem C10_weightless_edge_without_read:
  "acgt_then_at = Some (Inr acgt_at_graph) \<and>
   map total_weight (edges acgt_at_graph) = [2, 2, 2, 0] \<and>
   map in_edges (nodes acgt_at_graph) = [[], [0], [1], [2, 3]] \<and>
   \<not> positive_weights acgt_at_graph \<and>
   traverse_heaviest_bundle acgt_at_graph \<noteq> Some (Inl OutOfBounds) \<and>
   then_consensus acgt_then_at = Some (Inr ''ACGT'')"
  by code_simp

text \<open>
  C10: in \<open>traverse_heaviest_bundle\<close>, branch completion included, the read of
  \<open>scores[predecessors[node_id]]\<close> with \<open>predecessors[node_id] = -1\<close> is the only
  read outside a vector that a well-formed graph whose cached order holds every
  node once can cause.  If every edge has a strictly positive total weight, it does
  not happen.  If the first in-edge of some node has total weight 0, it happens:
  the score of the node is still 0 and equals the weight, and no predecessor has
  been chosen.  (An edge of weight 0 behind a heavier in-edge of the same node is
  harmless.)
\<close>

theorem C10_scores_read_needs_positive_weights:
  "(wf_graph g \<and> positive_weights g \<and> sorted_permutation g \<and> 0 < num_nodes g \<longrightarrow>
      traverse_heaviest_bundle g \<noteq> Some (Inl OutOfBounds)) \<and>
   (sorted_permutation g \<and> n < num_nodes g \<and> weightless_first_in_edge g n \<longrightarrow>
      traverse_heaviest_bundle g = Some (Inl OutOfBounds))"
proof (intro conjI impI)
  assume "wf_graph g \<and> positive_weights g \<and> sorted_permutation g \<and> 0 < num_nodes g"
  then show "traverse_heaviest_bundle g \<noteq> Some (Inl OutOfBounds)"
    using traverse_no_error by blast
next
  assume a: "sorted_permutation g \<and> n < num_nodes g \<and> weightless_first_in_edge g n"
  then have "n \<in> set (sorted_nodes_ids g)" "distinct (sorted_nodes_ids g)"
    and ids: "\<forall>m \<in> set (sorted_nodes_ids g). m < num_nodes g"
    by (simp_all add: sorted_permutation_def)
  with a have "score_nodes g (sorted_nodes_ids g)
       (replicate (num_nodes g) 0, replicate (num_nodes g) (- 1), 0) = Inl OutOfBounds"
    by (intro score_nodes_weightless) auto
  then show "traverse_heaviest_bundle g = Some (Inl OutOfBounds)"
    by (simp add: traverse_heaviest_bundle_def)
qed

theorem C10_scores_read_witness:
  "wf_graph acgt_acct_graph \<and> positive_weights acgt_acct_graph \<and>
   sorted_permutation acgt_acct_graph \<and> 0 < num_nodes acgt_acct_graph \<and>
   traverse_heaviest_bundle acgt_acct_graph \<noteq> Some (Inl OutOfBounds) \<and>
   sorted_permutation ac_weightless_graph \<and> 1 < num_nodes ac_weightless_graph \<and>
   weightless_first_in_edge ac_weightless_graph 1 \<and>
   traverse_heaviest_bundle ac_weightless_graph = Some (Inl OutOfBounds)"
proof -
  have 1: "wf_graph acgt_acct_graph \<and> positive_weights acgt_acct_graph \<and>
           sorted_permutation acgt_acct_graph \<and> 0 < num_nodes acgt_acct_graph"
    by code_simp
  have 2: "sorted_permutation ac_weightless_graph \<and> 1 < num_nodes ac_weightless_graph \<and>
           weightless_first_in_edge ac_weightless_graph 1"
    by code_simp
  from 1 2 C10_scores_read_needs_positive_weights[of acgt_acct_graph 1]
    C10_scores_read_needs_positive_weights[of ac_weightless_graph 1]
  show ?thesis by blast
qed

subsection \<open>C2: the loop of branch completions\<close>

text \<open>With the weight \<open>-1\<close> at both positions of \<open>AC\<close> the only edge weighs \<open>-2\<close>.
  Node 0 keeps the best score and has an outgoing edge; branch completion at rank 0
  finds no node with a positive score behind it and returns node 0 again, in a
  state that the next call reproduces.\<close>

lemma ac_negative_step:
  "branch_completion ac_negative_graph [0, - 1] [- 1, - 1] (node_id_to_rank ac_negative_graph ! 0)
     = Inr ([0, - 1], [- 1, - 1], 0)"
  "branch_completion ac_negative_graph [0, 0] [- 1, - 1] (node_id_to_rank ac_negative_graph ! 0)
     = Inr ([0, - 1], [- 1, - 1], 0)"
  "out_edges (nodes ac_negative_graph ! 0) \<noteq> []"
  "score_nodes ac_negative_graph (sorted_nodes_ids ac_negative_graph)
     (replicate (num_nodes ac_negative_graph) 0, replicate (num_nodes ac_negative_graph) (- 1), 0)
     = Inr ([0, 0], [- 1, - 1], 0)"
  "num_nodes ac_negative_graph \<noteq> 0"
  by code_simp+

lemma ac_negative_loop:
  "completion_loop ac_negative_graph (node_id_to_rank ac_negative_graph) ([0, - 1], [- 1, - 1], 0) = None"
proof -
  let ?G = ac_negative_graph and ?R = "node_id_to_rank ac_negative_graph"
  let ?st = "([0, - 1], [- 1, - 1], 0) :: real list \<times> int list \<times> nat"
  let ?P = "\<lambda>g ranks st (r :: (error + real list \<times> int list \<times> nat)).
              \<not> (g = ?G \<and> ranks = ?R \<and> st = ?st)"
  have "?P ?G ?R ?st r" if "completion_loop ?G ?R ?st = Some r" for r
  proof (rule completion_loop.raw_induct[where P = ?P, OF _ that])
    fix f g ranks st r
    assume IH: "\<And>g ranks st r. f g ranks st = Some r \<Longrightarrow> ?P g ranks st r"
      and body: "(case st of
        (scores, predecessors, max_score_id) \<Rightarrow>
          if out_edges (nodes g ! max_score_id) = [] then Some (Inr st)
          else case branch_completion g scores predecessors (ranks ! max_score_id) of
               Inl e \<Rightarrow> Some (Inl e) | Inr st' \<Rightarrow> f g ranks st') = Some r"
    show "?P g ranks st r"
    proof
      assume eq: "g = ?G \<and> ranks = ?R \<and> st = ?st"
      with body have "f ?G ?R ?st = Some r"
        by (simp add: ac_negative_step)
      from IH[OF this] show False by simp
    qed
  qed
  then show ?thesis by (cases "completion_loop ?G ?R ?st") auto
qed

text \<open>C2 as stated does not hold: on the acyclic two-node graph of \<open>AC\<close> with
  weight \<open>-1\<close> branch completion at rank 0 returns node 0, of rank 0, and
  \<open>traverse_heaviest_bundle\<close> does not return.\<close>

theorem C2_negative_weights_never_return:
  "wf_graph ac_negative_graph \<and> valid_linearization ac_negative_graph \<and>
   out_edges (nodes ac_negative_graph ! 0) \<noteq> [] \<and>
   branch_completion ac_negative_graph [0, 0] [- 1, - 1] 0 = Inr ([0, - 1], [- 1, - 1], 0) \<and>
   node_id_to_rank ac_negative_graph ! 0 = 0 \<and>
   traverse_heaviest_bundle ac_negative_graph = None"
proof -
  have 1: "wf_graph ac_negative_graph \<and> valid_linearization ac_negative_graph \<and>
   out_edges (nodes ac_negative_graph ! 0) \<noteq> [] \<and>
   branch_completion ac_negative_graph [0, 0] [- 1, - 1] 0 = Inr ([0, - 1], [- 1, - 1], 0) \<and>
   node_id_to_rank ac_negative_graph ! 0 = 0"
    by code_simp
  have "completion_loop ac_negative_graph (node_id_to_rank ac_negative_graph) ([0, 0], [- 1, - 1], 0) = None"
    by (subst completion_loop.simps) (simp add: ac_negative_step ac_negative_loop)
  then have "traverse_heaviest_bundle ac_negative_graph = None"
    by (simp add: traverse_heaviest_bundle_def ac_negative_step)
  with 1 show ?thesis by simp
qed

subsubsection \<open>Ranks\<close>

lemma sorted_permutation_length:
  "sorted_permutation g \<Longrightarrow> length (sorted_nodes_ids g) = num_nodes g"
  using distinct_card[of "sorted_nodes_ids g"] by (simp add: sorted_permutation_def)

lemma sorted_permutation_nth:
  "sorted_permutation g \<Longrightarrow> i < num_nodes g \<Longrightarrow> sorted_nodes_ids g ! i < num_nodes g"
  using sorted_permutation_length[of g] nth_mem[of i "sorted_nodes_ids g"]
  by (simp add: sorted_permutation_def del: nth_mem)

lemma rank_of_sorted:
  assumes "sorted_permutation g" "i < num_nodes g"
  shows "node_id_to_rank g ! (sorted_nodes_ids g ! i) = i"
proof -
  let ?S = "sorted_nodes_ids g" and ?N = "num_nodes g"
  let ?f = "\<lambda>i rank. rank[?S ! i := i]"
  have len: "length ?S = ?N" using assms(1) by (rule sorted_permutation_length)
  have d: "distinct ?S" using assms(1) by (simp add: sorted_permutation_def)
  have "k \<le> ?N \<Longrightarrow> length (fold ?f [0 ..< k] (replicate ?N 0)) = ?N \<and>
          (\<forall>i < k. fold ?f [0 ..< k] (replicate ?N 0) ! (?S ! i) = i)" for k
  proof (induction k)
    case 0
    then show ?case by simp
  next
    case (Suc k)
    then have IH: "length (fold ?f [0 ..< k] (replicate ?N 0)) = ?N"
      "\<forall>i < k. fold ?f [0 ..< k] (replicate ?N 0) ! (?S ! i) = i" by simp_all
    have Sk: "?S ! k < ?N" using sorted_permutation_nth[OF assms(1)] Suc.prems by simp
    have ne: "?S ! i \<noteq> ?S ! k" if "i < k" for i
      using d that Suc.prems len by (simp add: nth_eq_iff_index_eq)
    have "fold ?f [0 ..< Suc k] (replicate ?N 0) ! (?S ! i) = i" if "i < Suc k" for i
    proof (cases "i = k")
      case True
      then show ?thesis using IH(1) Sk by simp
    next
      case False
      with that have "i < k" by simp
      with ne[OF this] IH(2) show ?thesis by simp
    qed
    then show ?case using IH(1) by simp
  qed
  from this[of ?N] assms(2) show ?thesis by (simp add: node_id_to_rank_def)
qed

lemma sorted_of_rank:
  assumes "sorted_permutation g" "n < num_nodes g"
  shows "node_id_to_rank g ! n < num_nodes g" "sorted_nodes_ids g ! (node_id_to_rank g ! n) = n"
proof -
  from assms have "n \<in> set (sorted_nodes_ids g)" by (simp add: sorted_permutation_def)
  then obtain i where i: "i < length (sorted_nodes_ids g)" "sorted_nodes_ids g ! i = n"
    by (auto simp: in_set_conv_nth)
  then have "i < num_nodes g" using sorted_permutation_length[OF assms(1)] by simp
  from rank_of_sorted[OF assms(1) this] i(2) \<open>i < num_nodes g\<close>
  show "node_id_to_rank g ! n < num_nodes g" "sorted_nodes_ids g ! (node_id_to_rank g ! n) = n"
    by simp_all
qed

lemma forward_in_edge:
  assumes "wf_graph g" "valid_linearization g" "n < num_nodes g"
      and "h \<in> set (in_edges (nodes g ! n))"
  shows "node_id_to_rank g ! begin_node_id (edges g ! h) < node_id_to_rank g ! n"
    and "begin_node_id (edges g ! h) \<noteq> n"
proof -
  note w = wf_in_edge[OF assms(1,3,4)]
  from assms(2) w(1) have "node_id_to_rank g ! begin_node_id (edges g ! h)
      < node_id_to_rank g ! end_node_id (edges g ! h)"
    by (simp add: valid_linearization_def edges_forward_def list_all_length)
  with w(2) show "node_id_to_rank g ! begin_node_id (edges g ! h) < node_id_to_rank g ! n"
    by simp
  then show "begin_node_id (edges g ! h) \<noteq> n" by auto
qed

subsubsection \<open>One node of a branch completion\<close>

lemma same_but_refl: "same_but n sp sp"
  by (simp add: same_but_def)

lemma same_but_trans: "same_but n a b \<Longrightarrow> same_but n b c \<Longrightarrow> same_but n a c"
  by (simp add: same_but_def)

lemma relax_edge_chosen:
  assumes "scores_sound g sp" "chosen_ok g n sp" "n < num_nodes g"
      and "0 < total_weight e" "begin_node_id e < num_nodes g" "begin_node_id e \<noteq> n"
      and "fst sp ! begin_node_id e \<noteq> - 1"
  shows "\<exists>sp'. relax_edge e n sp = Inr sp' \<and> scores_sound g sp' \<and> chosen_ok g n sp' \<and>
           same_but n sp sp' \<and> snd sp' ! n \<noteq> - 1"
proof -
  obtain sc pr where sp: "sp = (sc, pr)" by (cases sp)
  from assms(1) have len: "length sc = num_nodes g" "length pr = num_nodes g"
    by (simp_all add: scores_sound_def scores_ok_def sp)
  let ?up = "(sc[n := total_weight e], pr[n := int (begin_node_id e)])"
  have up: "scores_sound g ?up \<and> chosen_ok g n ?up \<and> same_but n sp ?up \<and> snd ?up ! n \<noteq> - 1"
    using assms len
    by (auto simp: scores_sound_def scores_ok_def chosen_ok_def same_but_def sp nth_list_update)
  have keep: "sc ! n \<noteq> - 1 \<Longrightarrow> pr ! n \<noteq> - 1 \<and> \<not> pr ! n < 0"
    using assms(2) by (auto simp: chosen_ok_def sp)
  show ?thesis
  proof (cases "sc ! n < total_weight e")
    case True
    with up show ?thesis by (simp add: relax_edge_def sp)
  next
    case False
    with assms(4) have "sc ! n \<noteq> - 1" by auto
    from keep[OF this] up assms(1,2) False show ?thesis
      by (auto simp: relax_edge_def sp same_but_refl)
  qed
qed

lemma relax_valid_in_edges_chosen:
  assumes "scores_sound g sp" "chosen_ok g n sp" "n < num_nodes g"
      and "\<forall>h \<in> set hs. 0 < total_weight (edges g ! h) \<and> begin_node_id (edges g ! h) < num_nodes g \<and>
             begin_node_id (edges g ! h) \<noteq> n"
  shows "\<exists>sp'. relax_valid_in_edges (edges g) n hs sp = Inr sp' \<and> scores_sound g sp' \<and>
           chosen_ok g n sp' \<and> same_but n sp sp' \<and>
           ((\<exists>h \<in> set hs. fst sp ! begin_node_id (edges g ! h) \<noteq> - 1) \<or> snd sp ! n \<noteq> - 1
              \<longrightarrow> snd sp' ! n \<noteq> - 1)"
  using assms
proof (induction hs arbitrary: sp)
  case Nil
  then show ?case by (simp add: same_but_refl)
next
  case (Cons h hs)
  let ?b = "begin_node_id (edges g ! h)"
  show ?case
  proof (cases "fst sp ! ?b = - 1")
    case True
    from Cons.IH[OF Cons.prems(1,2,3)] Cons.prems(4) True show ?thesis by auto
  next
    case False
    from relax_edge_chosen[OF Cons.prems(1,2,3) _ _ _ False] Cons.prems(4)
    obtain sp1 where 1: "relax_edge (edges g ! h) n sp = Inr sp1" "scores_sound g sp1"
      "chosen_ok g n sp1" "same_but n sp sp1" "snd sp1 ! n \<noteq> - 1" by auto
    from Cons.IH[OF 1(2,3) Cons.prems(3)] Cons.prems(4)
    obtain sp' where 2: "relax_valid_in_edges (edges g) n hs sp1 = Inr sp'" "scores_sound g sp'"
      "chosen_ok g n sp'" "same_but n sp1 sp'" "snd sp' ! n \<noteq> - 1"
      using 1(5) by auto
    show ?thesis using False 1(1) 2 same_but_trans[OF 1(4) 2(4)] by simp
  qed
qed


lemma complete_node_step:
  assumes "wf_graph g" "positive_weights g" "valid_linearization g"
      and "scores_sound g (sc, pr)" "n < num_nodes g"
  shows "\<exists>sc1 pr1. relax_valid_in_edges (edges g) n (in_edges (nodes g ! n))
                      (sc[n := - 1], pr[n := - 1]) = Inr (sc1, pr1) \<and>
           scores_sound g (if pr1 ! n \<noteq> - 1 then sc1[n := float_add (sc1 ! n) (sc1 ! nat (pr1 ! n))] else sc1, pr1) \<and>
           (\<forall>k. k \<noteq> n \<longrightarrow>
              (if pr1 ! n \<noteq> - 1 then sc1[n := float_add (sc1 ! n) (sc1 ! nat (pr1 ! n))] else sc1) ! k = sc ! k) \<and>
           ((\<exists>h \<in> set (in_edges (nodes g ! n)).
                begin_node_id (edges g ! h) \<noteq> n \<and> sc ! begin_node_id (edges g ! h) \<noteq> - 1)
            \<longrightarrow> 0 < (if pr1 ! n \<noteq> - 1 then sc1[n := float_add (sc1 ! n) (sc1 ! nat (pr1 ! n))] else sc1) ! n)"
proof -
  let ?sp0 = "(sc[n := - 1], pr[n := - 1])"
  from assms(4,5) have len: "length sc = num_nodes g" "length pr = num_nodes g"
    by (simp_all add: scores_sound_def scores_ok_def)
  have s0: "scores_sound g ?sp0"
    using assms(4) by (auto simp: scores_sound_def scores_ok_def nth_list_update_total)
  have c0: "chosen_ok g n ?sp0" using len assms(5) by (simp add: chosen_ok_def)
  have edges: "\<forall>h \<in> set (in_edges (nodes g ! n)).
      0 < total_weight (edges g ! h) \<and> begin_node_id (edges g ! h) < num_nodes g \<and>
      begin_node_id (edges g ! h) \<noteq> n"
    using wf_positive_in_edges[OF assms(1,2,5)] forward_in_edge(2)[OF assms(1,3,5)] by blast
  from relax_valid_in_edges_chosen[OF s0 c0 assms(5) edges]
  obtain sc1 pr1 where 1: "relax_valid_in_edges (edges g) n (in_edges (nodes g ! n)) ?sp0 = Inr (sc1, pr1)"
    and s1: "scores_sound g (sc1, pr1)" and c1: "chosen_ok g n (sc1, pr1)"
    and sb: "same_but n ?sp0 (sc1, pr1)"
    and ch: "(\<exists>h \<in> set (in_edges (nodes g ! n)). fst ?sp0 ! begin_node_id (edges g ! h) \<noteq> - 1)
              \<or> snd ?sp0 ! n \<noteq> - 1 \<longrightarrow> pr1 ! n \<noteq> - 1"
    by (metis prod.collapse snd_conv)
  let ?sc2 = "if pr1 ! n \<noteq> - 1 then sc1[n := float_add (sc1 ! n) (sc1 ! nat (pr1 ! n))] else sc1"
  from s1 have len1: "length sc1 = num_nodes g" by (simp add: scores_sound_def scores_ok_def)
  have pos: "0 < ?sc2 ! n" and nonneg: "0 \<le> float_add (sc1 ! n) (sc1 ! nat (pr1 ! n))"
    if "pr1 ! n \<noteq> - 1"
  proof -
    from c1 that have p: "nat (pr1 ! n) < num_nodes g" "sc1 ! nat (pr1 ! n) \<noteq> - 1" "0 < sc1 ! n"
      by (auto simp: chosen_ok_def)
    with s1 have "0 \<le> sc1 ! nat (pr1 ! n)" by (auto simp: scores_sound_def)
    with p(3) have "0 < sc1 ! n + sc1 ! nat (pr1 ! n)" by simp
    then have f: "0 < float_add (sc1 ! n) (sc1 ! nat (pr1 ! n))" by (rule float_add_pos)
    with that len1 assms(5) show "0 < ?sc2 ! n" by simp
    from f show "0 \<le> float_add (sc1 ! n) (sc1 ! nat (pr1 ! n))" by simp
  qed
  have s2: "scores_sound g (?sc2, pr1)"
    using s1 scores_ok_add[of g sc1 pr1 n] assms(5) nonneg
    by (auto simp: scores_sound_def nth_list_update_total)
  have fr: "\<forall>k. k \<noteq> n \<longrightarrow> ?sc2 ! k = sc ! k"
    using sb by (auto simp: same_but_def)
  have "0 < ?sc2 ! n" if "\<exists>h \<in> set (in_edges (nodes g ! n)).
                begin_node_id (edges g ! h) \<noteq> n \<and> sc ! begin_node_id (edges g ! h) \<noteq> - 1"
  proof -
    from that obtain h where h: "h \<in> set (in_edges (nodes g ! n))"
      "begin_node_id (edges g ! h) \<noteq> n" "sc ! begin_node_id (edges g ! h) \<noteq> - 1" by blast
    then have "fst ?sp0 ! begin_node_id (edges g ! h) \<noteq> - 1" by simp
    with h(1) have "\<exists>h \<in> set (in_edges (nodes g ! n)). fst ?sp0 ! begin_node_id (edges g ! h) \<noteq> - 1"
      by blast
    with ch have "pr1 ! n \<noteq> - 1" by blast
    then show ?thesis by (rule pos)
  qed
  with 1 s2 fr show ?thesis by blast
qed

lemma complete_nodes_sound:
  assumes "wf_graph g" "positive_weights g" "valid_linearization g"
      and "scores_sound g (sc, pr)" "distinct ns" "\<forall>n \<in> set ns. n < num_nodes g"
  shows "\<exists>sc' pr' ms' mx'. complete_nodes g ns (sc, pr, ms, mx) = Inr (sc', pr', ms', mx') \<and>
           scores_sound g (sc', pr') \<and> (\<forall>k. k \<notin> set ns \<longrightarrow> sc' ! k = sc ! k) \<and> ms \<le> ms' \<and>
           (ms' = ms \<and> mx' = mx \<or> mx' \<in> set ns \<and> sc' ! mx' = ms' \<and> ms < ms') \<and>
           (\<forall>s \<in> set ns. \<forall>h \<in> set (in_edges (nodes g ! s)).
               begin_node_id (edges g ! h) \<notin> set ns \<and> sc ! begin_node_id (edges g ! h) \<noteq> - 1
               \<longrightarrow> 0 < ms')"
  using assms(4-)
proof (induction ns arbitrary: sc pr ms mx)
  case Nil
  then show ?case by simp
next
  case (Cons n ns)
  then have n: "n < num_nodes g" and nn: "n \<notin> set ns" and d: "distinct ns"
    and ids: "\<forall>n \<in> set ns. n < num_nodes g" by simp_all
  from complete_node_step[OF assms(1,2,3) Cons.prems(1) n]
  obtain sc1 pr1 where 1: "relax_valid_in_edges (edges g) n (in_edges (nodes g ! n))
                      (sc[n := - 1], pr[n := - 1]) = Inr (sc1, pr1)"
    and s2: "scores_sound g (if pr1 ! n \<noteq> - 1 then sc1[n := float_add (sc1 ! n) (sc1 ! nat (pr1 ! n))] else sc1, pr1)"
    and fr: "\<forall>k. k \<noteq> n \<longrightarrow>
              (if pr1 ! n \<noteq> - 1 then sc1[n := float_add (sc1 ! n) (sc1 ! nat (pr1 ! n))] else sc1) ! k = sc ! k"
    and pos: "(\<exists>h \<in> set (in_edges (nodes g ! n)).
                begin_node_id (edges g ! h) \<noteq> n \<and> sc ! begin_node_id (edges g ! h) \<noteq> - 1)
            \<longrightarrow> 0 < (if pr1 ! n \<noteq> - 1 then sc1[n := float_add (sc1 ! n) (sc1 ! nat (pr1 ! n))] else sc1) ! n"
    by blast
  define sc2 where "sc2 = (if pr1 ! n \<noteq> - 1 then sc1[n := float_add (sc1 ! n) (sc1 ! nat (pr1 ! n))] else sc1)"
  define ms1 where "ms1 = (if ms < sc2 ! n then sc2 ! n else ms)"
  define mx1 where "mx1 = (if ms < sc2 ! n then n else mx)"
  have unfold: "complete_nodes g (n # ns) (sc, pr, ms, mx) = complete_nodes g ns (sc2, pr1, ms1, mx1)"
    using 1 by (simp add: sc2_def ms1_def mx1_def Let_def)
  from Cons.IH[OF s2[folded sc2_def] d ids, of ms1 mx1]
  obtain sc' pr' ms' mx' where
    r: "complete_nodes g ns (sc2, pr1, ms1, mx1) = Inr (sc', pr', ms', mx')"
    and s': "scores_sound g (sc', pr')"
    and fr': "\<forall>k. k \<notin> set ns \<longrightarrow> sc' ! k = sc2 ! k"
    and le': "ms1 \<le> ms'"
    and dj: "ms' = ms1 \<and> mx' = mx1 \<or> mx' \<in> set ns \<and> sc' ! mx' = ms' \<and> ms1 < ms'"
    and ps: "\<forall>s \<in> set ns. \<forall>h \<in> set (in_edges (nodes g ! s)).
               begin_node_id (edges g ! h) \<notin> set ns \<and> sc2 ! begin_node_id (edges g ! h) \<noteq> - 1
               \<longrightarrow> 0 < ms'"
    by blast
  have le1: "ms \<le> ms1" by (simp add: ms1_def)
  have a: "\<forall>k. k \<notin> set (n # ns) \<longrightarrow> sc' ! k = sc ! k"
    using fr fr' by (simp add: sc2_def)
  have b: "ms \<le> ms'" using le1 le' by simp
  have c: "ms' = ms \<and> mx' = mx \<or> mx' \<in> set (n # ns) \<and> sc' ! mx' = ms' \<and> ms < ms'"
  proof (cases "ms' = ms1 \<and> mx' = mx1")
    case True
    show ?thesis
    proof (cases "ms < sc2 ! n")
      case lt: True
      then have "mx' = n" "ms' = sc2 ! n" using True by (simp_all add: ms1_def mx1_def)
      moreover have "sc' ! n = sc2 ! n" using fr' nn by simp
      ultimately show ?thesis using lt by simp
    next
      case False
      then show ?thesis using True by (simp add: ms1_def mx1_def)
    qed
  next
    case False
    with dj have "mx' \<in> set ns \<and> sc' ! mx' = ms' \<and> ms1 < ms'" by blast
    then show ?thesis using le1 by auto
  qed
  have e: "0 < ms'" if "s \<in> set (n # ns)" "h \<in> set (in_edges (nodes g ! s))"
    "begin_node_id (edges g ! h) \<notin> set (n # ns)" "sc ! begin_node_id (edges g ! h) \<noteq> - 1" for s h
  proof (cases "s = n")
    case True
    with that pos have "0 < sc2 ! n" by (auto simp: sc2_def)
    then have "0 < ms1" by (simp add: ms1_def)
    with le' show ?thesis by simp
  next
    case False
    with that have "s \<in> set ns" by simp
    moreover have "sc2 ! begin_node_id (edges g ! h) \<noteq> - 1" using that(3,4) fr by (simp add: sc2_def)
    ultimately show ?thesis using ps that(2,3) by auto
  qed
  show ?case unfolding unfold using r s' a b c e by blast
qed


lemma in_set_drop_nth: "x \<in> set (drop k xs) \<longleftrightarrow> (\<exists>j. k \<le> j \<and> j < length xs \<and> xs ! j = x)"
proof
  assume "x \<in> set (drop k xs)"
  then obtain i where "i < length (drop k xs)" "drop k xs ! i = x" by (auto simp: in_set_conv_nth)
  then have "k \<le> k + i \<and> k + i < length xs \<and> xs ! (k + i) = x" by auto
  then show "\<exists>j. k \<le> j \<and> j < length xs \<and> xs ! j = x" by blast
next
  assume "\<exists>j. k \<le> j \<and> j < length xs \<and> xs ! j = x"
  then obtain j where j: "k \<le> j" "j < length xs" "xs ! j = x" by blast
  then have "j - k < length (drop k xs)" "drop k xs ! (j - k) = x" by auto
  then show "x \<in> set (drop k xs)" by (metis nth_mem)
qed

lemma invalidate_in_edges_sound:
  "scores_sound g (sc, pr) \<Longrightarrow>
     scores_sound g (invalidate_in_edges es n hs sc, pr) \<and> invalidate_in_edges es n hs sc ! n = sc ! n"
proof (induction hs arbitrary: sc)
  case Nil
  then show ?case by simp
next
  case (Cons h hs)
  have "scores_sound g (sc[begin_node_id (es ! h) := - 1], pr)"
    using Cons.prems by (auto simp: scores_sound_def scores_ok_def nth_list_update_total)
  from Cons.IH[OF this] Cons.IH[OF Cons.prems] show ?case by simp
qed

lemma invalidate_siblings_sound:
  "scores_sound g (sc, pr) \<Longrightarrow>
     scores_sound g (invalidate_siblings g n hs sc, pr) \<and> invalidate_siblings g n hs sc ! n = sc ! n"
proof (induction hs arbitrary: sc)
  case Nil
  then show ?case by simp
next
  case (Cons h hs)
  from invalidate_in_edges_sound[OF Cons.prems]
  have 1: "scores_sound g (invalidate_in_edges (edges g) n
              (in_edges (nodes g ! end_node_id (edges g ! h))) sc, pr)"
    and 2: "invalidate_in_edges (edges g) n (in_edges (nodes g ! end_node_id (edges g ! h))) sc ! n = sc ! n"
    by blast+
  from Cons.IH[OF 1] 2 show ?case by simp
qed

text \<open>One branch completion at the rank of a node that has an outgoing edge and a
  usable score returns a node of greater rank with a positive score.\<close>

lemma branch_completion_advances:
  assumes "wf_graph g" "positive_weights g" "valid_linearization g"
      and "scores_sound g (sc, pr)" "rank < num_nodes g"
      and "sc ! (sorted_nodes_ids g ! rank) \<noteq> - 1"
      and "out_edges (nodes g ! (sorted_nodes_ids g ! rank)) \<noteq> []"
  shows "\<exists>sc' pr' mx'. branch_completion g sc pr rank = Inr (sc', pr', mx') \<and>
           scores_sound g (sc', pr') \<and> mx' < num_nodes g \<and>
           rank < node_id_to_rank g ! mx' \<and> 0 < sc' ! mx'"
proof -
  let ?S = "sorted_nodes_ids g" and ?N = "num_nodes g" and ?rk = "node_id_to_rank g"
  let ?n0 = "?S ! rank"
  have perm: "sorted_permutation g" using assms(3) by (simp add: valid_linearization_def)
  have len: "length ?S = ?N" using perm by (rule sorted_permutation_length)
  have d: "distinct ?S" using perm by (simp add: sorted_permutation_def)
  have n0: "?n0 < ?N" using sorted_permutation_nth[OF perm assms(5)] .
  let ?sci = "invalidate_siblings g ?n0 (out_edges (nodes g ! ?n0)) sc"
  from invalidate_siblings_sound[OF assms(4)]
  have si: "scores_sound g (?sci, pr)" and sin: "?sci ! ?n0 \<noteq> - 1" using assms(6) by simp_all
  let ?ns = "drop (Suc rank) ?S"
  have dns: "distinct ?ns" using d by simp
  have ids: "\<forall>n \<in> set ?ns. n < ?N"
    using perm by (auto simp: sorted_permutation_def dest: in_set_dropD)
  have notin: "?n0 \<notin> set ?ns"
  proof
    assume "?n0 \<in> set ?ns"
    then obtain j where "Suc rank \<le> j" "j < length ?S" "?S ! j = ?n0"
      by (auto simp: in_set_drop_nth)
    with d assms(5) len show False by (simp add: nth_eq_iff_index_eq)
  qed
  from assms(7) obtain h0 where h0: "h0 \<in> set (out_edges (nodes g ! ?n0))"
    by (cases "out_edges (nodes g ! ?n0)") auto
  note w = wf_out_edge[OF assms(1) n0 h0]
  let ?s = "end_node_id (edges g ! h0)"
  have "?rk ! begin_node_id (edges g ! h0) < ?rk ! ?s"
    using assms(3) w(1) by (simp add: valid_linearization_def edges_forward_def list_all_length)
  then have "rank < ?rk ! ?s" using w(2) rank_of_sorted[OF perm assms(5)] by simp
  moreover note sr = sorted_of_rank[OF perm w(3)]
  ultimately have s_in: "?s \<in> set ?ns"
    using len by (auto simp: in_set_drop_nth intro!: exI[of _ "?rk ! ?s"])
  from complete_nodes_sound[OF assms(1,2,3) si dns ids, of 0 0]
  obtain sc' pr' ms' mx' where
    r: "complete_nodes g ?ns (?sci, pr, 0, 0) = Inr (sc', pr', ms', mx')"
    and s': "scores_sound g (sc', pr')"
    and dj: "ms' = 0 \<and> mx' = 0 \<or> mx' \<in> set ?ns \<and> sc' ! mx' = ms' \<and> 0 < ms'"
    and ps: "\<forall>s \<in> set ?ns. \<forall>h \<in> set (in_edges (nodes g ! s)).
               begin_node_id (edges g ! h) \<notin> set ?ns \<and> ?sci ! begin_node_id (edges g ! h) \<noteq> - 1
               \<longrightarrow> 0 < ms'"
    by blast
  have "0 < ms'" using ps[rule_format, OF s_in w(4)] w(2) notin sin by simp
  with dj have mx: "mx' \<in> set ?ns" "sc' ! mx' = ms'" by auto
  then obtain j where j: "Suc rank \<le> j" "j < length ?S" "?S ! j = mx'"
    by (auto simp: in_set_drop_nth)
  then have "?rk ! mx' = j" using rank_of_sorted[OF perm, of j] len by auto
  with j have "rank < ?rk ! mx'" by simp
  moreover have "mx' < ?N" using ids mx(1) by simp
  ultimately show ?thesis
    using r s' mx(2) \<open>0 < ms'\<close> assms(5) len by (simp add: branch_completion_def Let_def)
qed


lemma completion_loop_terminates:
  assumes "wf_graph g" "positive_weights g" "valid_linearization g"
      and "scores_sound g (sc, pr)" "mx < num_nodes g" "sc ! mx \<noteq> - 1"
  shows "\<exists>sc' pr' mx'. completion_loop g (node_id_to_rank g) (sc, pr, mx) = Some (Inr (sc', pr', mx')) \<and>
           out_edges (nodes g ! mx') = [] \<and> mx' < num_nodes g"
  using assms(4-)
proof (induction "num_nodes g - node_id_to_rank g ! mx" arbitrary: sc pr mx rule: less_induct)
  case less
  have perm: "sorted_permutation g" using assms(3) by (simp add: valid_linearization_def)
  note rk = sorted_of_rank[OF perm less.prems(2)]
  show ?case
  proof (cases "out_edges (nodes g ! mx) = []")
    case True
    then show ?thesis using less.prems(2) by (subst completion_loop.simps) simp
  next
    case False
    from branch_completion_advances[OF assms(1,2,3) less.prems(1) rk(1)] less.prems(3) False rk(2)
    obtain sc1 pr1 m1 where bc: "branch_completion g sc pr (node_id_to_rank g ! mx) = Inr (sc1, pr1, m1)"
      and s1: "scores_sound g (sc1, pr1)" and m1: "m1 < num_nodes g"
      and adv: "node_id_to_rank g ! mx < node_id_to_rank g ! m1" and pos: "0 < sc1 ! m1"
      by auto
    have "node_id_to_rank g ! m1 < num_nodes g" using sorted_of_rank(1)[OF perm m1] .
    with adv have dec: "num_nodes g - node_id_to_rank g ! m1 < num_nodes g - node_id_to_rank g ! mx"
      by simp
    from pos have "sc1 ! m1 \<noteq> - 1" by simp
    from less.hyps[OF dec s1 m1 this] show ?thesis
      using False bc by (subst completion_loop.simps) simp
  qed
qed

lemma relax_in_edges_nonneg:
  assumes "scores_ok g (sc, pr)" "\<forall>k < num_nodes g. 0 \<le> sc ! k" "n < num_nodes g"
      and "\<forall>h \<in> set hs. 0 < total_weight (edges g ! h) \<and> begin_node_id (edges g ! h) < num_nodes g"
      and "relax_in_edges (edges g) n hs (sc, pr) = Inr (sc', pr')"
  shows "\<forall>k < num_nodes g. 0 \<le> sc' ! k"
  using assms
proof (induction hs arbitrary: sc pr)
  case Nil
  then show ?case by simp
next
  case (Cons h hs)
  from relax_edge_ok[OF Cons.prems(1,3), of "edges g ! h"] Cons.prems(4)
  obtain sp1 where 1: "relax_edge (edges g ! h) n (sc, pr) = Inr sp1" "scores_ok g sp1" by auto
  obtain sc1 pr1 where sp1: "sp1 = (sc1, pr1)" by (cases sp1)
  have "\<forall>k < num_nodes g. 0 \<le> sc1 ! k"
    using 1(1) Cons.prems(2,4) unfolding sp1
    by (auto simp: relax_edge_def nth_list_update_total split: if_splits)
  from Cons.IH[OF 1(2)[unfolded sp1] this Cons.prems(3)] Cons.prems(4,5) 1(1) sp1
  show ?case by simp
qed

lemma score_nodes_nonneg:
  assumes "wf_graph g" "positive_weights g" "scores_ok g (sc, pr)" "\<forall>k < num_nodes g. 0 \<le> sc ! k"
      and "\<forall>n \<in> set ns. n < num_nodes g"
      and "score_nodes g ns (sc, pr, mx) = Inr (sc', pr', mx')"
  shows "\<forall>k < num_nodes g. 0 \<le> sc' ! k"
  using assms(3-)
proof (induction ns arbitrary: sc pr mx)
  case Nil
  then show ?case by simp
next
  case (Cons n ns)
  then have n: "n < num_nodes g" by simp
  note e = wf_positive_in_edges[OF assms(1,2) n]
  from relax_in_edges_ok[OF Cons.prems(1) n e]
  obtain sc1 pr1 where 1: "relax_in_edges (edges g) n (in_edges (nodes g ! n)) (sc, pr) = Inr (sc1, pr1)"
    "scores_ok g (sc1, pr1)" by auto
  note nn1 = relax_in_edges_nonneg[OF Cons.prems(1,2) n e 1(1)]
  let ?sc2 = "if pr1 ! n \<noteq> - 1 then sc1[n := float_add (sc1 ! n) (sc1 ! nat (pr1 ! n))] else sc1"
  have 2: "scores_ok g (?sc2, pr1)" using scores_ok_add[OF 1(2) n] .
  have p: "nat (pr1 ! n) < num_nodes g" using 1(2) n by (auto simp: scores_ok_def)
  have nn2: "\<forall>k < num_nodes g. 0 \<le> ?sc2 ! k"
    using nn1 p n by (auto simp: nth_list_update_total intro!: float_add_nonneg)
  from Cons.prems(4) 1(1)
  have "score_nodes g ns (?sc2, pr1, if ?sc2 ! mx < ?sc2 ! n then n else mx) = Inr (sc', pr', mx')"
    by (simp add: Let_def)
  from Cons.IH[OF 2 nn2 _ this] Cons.prems(3) show ?case by simp
qed

text \<open>
  C2, as the code behaves: in a well-formed graph whose cached order is a
  linearization and whose edges all have a strictly positive total weight, a call of
  \<open>branch_completion\<close> at the rank of a node that has an outgoing edge and a usable
  score (the tables being in a state that the traversal can reach) returns a node
  of strictly greater rank; and the loop of branch completions that
  \<open>traverse_heaviest_bundle\<close> starts after its first pass returns, at a node that
  has no outgoing edge.
\<close>

theorem C2_branch_completion_terminates:
  assumes "wf_graph g" and "positive_weights g" and "valid_linearization g"
      and "0 < num_nodes g"
  shows "(\<forall>sc pr rank.
            scores_sound g (sc, pr) \<and> rank < num_nodes g \<and>
            sc ! (sorted_nodes_ids g ! rank) \<noteq> - 1 \<and>
            out_edges (nodes g ! (sorted_nodes_ids g ! rank)) \<noteq> [] \<longrightarrow>
            (\<exists>sc' pr' mx'. branch_completion g sc pr rank = Inr (sc', pr', mx') \<and>
               scores_sound g (sc', pr') \<and> sc' ! mx' \<noteq> - 1 \<and>
               rank < node_id_to_rank g ! mx')) \<and>
         (\<exists>sc pr mx sc' pr' mx'.
            score_nodes g (sorted_nodes_ids g)
              (replicate (num_nodes g) 0, replicate (num_nodes g) (- 1), 0) = Inr (sc, pr, mx) \<and>
            scores_sound g (sc, pr) \<and> sc ! mx \<noteq> - 1 \<and>
            completion_loop g (node_id_to_rank g) (sc, pr, mx) = Some (Inr (sc', pr', mx')) \<and>
            out_edges (nodes g ! mx') = [])"
proof (intro conjI allI impI)
  fix sc pr rank
  assume a: "scores_sound g (sc, pr) \<and> rank < num_nodes g \<and>
            sc ! (sorted_nodes_ids g ! rank) \<noteq> - 1 \<and>
            out_edges (nodes g ! (sorted_nodes_ids g ! rank)) \<noteq> []"
  from branch_completion_advances[OF assms(1,2,3), of sc pr rank] a
  obtain sc' pr' mx' where "branch_completion g sc pr rank = Inr (sc', pr', mx')"
    "scores_sound g (sc', pr')" "rank < node_id_to_rank g ! mx'" "0 < sc' ! mx'" by blast
  then show "\<exists>sc' pr' mx'. branch_completion g sc pr rank = Inr (sc', pr', mx') \<and>
               scores_sound g (sc', pr') \<and> sc' ! mx' \<noteq> - 1 \<and>
               rank < node_id_to_rank g ! mx'"
    by (intro exI[of _ sc'] exI[of _ pr'] exI[of _ mx']) simp
next
  have perm: "sorted_permutation g" using assms(3) by (simp add: valid_linearization_def)
  have ids: "\<forall>n \<in> set (sorted_nodes_ids g). n < num_nodes g"
    using perm by (simp add: sorted_permutation_def)
  have init: "scores_ok g (replicate (num_nodes g) 0, replicate (num_nodes g) (- 1))"
    by (simp add: scores_ok_def)
  from score_nodes_ok[OF assms(1,2) init ids assms(4)]
  obtain sc pr mx where sn: "score_nodes g (sorted_nodes_ids g)
       (replicate (num_nodes g) 0, replicate (num_nodes g) (- 1), 0) = Inr (sc, pr, mx)"
    and ok: "scores_ok g (sc, pr)" and mx: "mx < num_nodes g" by blast
  have nn: "\<forall>k < num_nodes g. 0 \<le> sc ! k"
    by (rule score_nodes_nonneg[OF assms(1,2) init _ ids sn]) simp
  then have sound: "scores_sound g (sc, pr)" using ok by (simp add: scores_sound_def)
  have ne: "sc ! mx \<noteq> - 1" using nn mx by fastforce
  from completion_loop_terminates[OF assms(1,2,3) sound mx ne] sn sound ne
  show "\<exists>sc pr mx sc' pr' mx'.
            score_nodes g (sorted_nodes_ids g)
              (replicate (num_nodes g) 0, replicate (num_nodes g) (- 1), 0) = Inr (sc, pr, mx) \<and>
            scores_sound g (sc, pr) \<and> sc ! mx \<noteq> - 1 \<and>
            completion_loop g (node_id_to_rank g) (sc, pr, mx) = Some (Inr (sc', pr', mx')) \<and>
            out_edges (nodes g ! mx') = []"
    by blast
qed

theorem C2_branch_completion_witness:
  "wf_graph xs_pqrs_graph \<and> positive_weights xs_pqrs_graph \<and> valid_linearization xs_pqrs_graph \<and>
   0 < num_nodes xs_pqrs_graph \<and>
   score_nodes xs_pqrs_graph (sorted_nodes_ids xs_pqrs_graph)
     (replicate (num_nodes xs_pqrs_graph) 0, replicate (num_nodes xs_pqrs_graph) (- 1), 0)
     = Inr ([0, 3, 0, 100, 151], [- 1, 0, - 1, 2, 3], 4) \<and>
   out_edges (nodes xs_pqrs_graph ! 4) \<noteq> [] \<and>
   (\<exists>sc' pr' mx'.
      completion_loop xs_pqrs_graph (node_id_to_rank xs_pqrs_graph)
        ([0, 3, 0, 100, 151], [- 1, 0, - 1, 2, 3], 4) = Some (Inr (sc', pr', mx')) \<and>
      out_edges (nodes xs_pqrs_graph ! mx') = [])"
proof -
  have h: "wf_graph xs_pqrs_graph \<and> positive_weights xs_pqrs_graph \<and>
           valid_linearization xs_pqrs_graph \<and> 0 < num_nodes xs_pqrs_graph"
    by code_simp
  have s: "score_nodes xs_pqrs_graph (sorted_nodes_ids xs_pqrs_graph)
     (replicate (num_nodes xs_pqrs_graph) 0, replicate (num_nodes xs_pqrs_graph) (- 1), 0)
     = Inr ([0, 3, 0, 100, 151], [- 1, 0, - 1, 2, 3], 4)"
    "out_edges (nodes xs_pqrs_graph ! 4) \<noteq> []"
    by code_simp+
  from h C2_branch_completion_terminates[of xs_pqrs_graph] s show ?thesis
    by auto
qed

subsection \<open>Invariants of the construction\<close>

lemma wf_graph_cong:
  "nodes g' = nodes g \<Longrightarrow> edges g' = edges g \<Longrightarrow> num_nodes g' = num_nodes g \<Longrightarrow>
   wf_graph g' = wf_graph g"
  by (simp add: wf_graph_iff node_ok_def edge_ok_def)

lemma ball_upt: "(\<forall>a \<in> {0 ..< n :: nat}. P a) \<longleftrightarrow> (\<forall>a < n. P a)"
  by auto

lemma aligned_closed_iff:
  "aligned_closed g \<longleftrightarrow>
     (\<forall>a < num_nodes g. \<forall>b \<in> aligned_with g a.
        b < num_nodes g \<and> b \<noteq> a \<and> a \<in> aligned_with g b \<and>
        (\<forall>c \<in> aligned_with g b. c \<noteq> a \<longrightarrow> c \<in> aligned_with g a))"
  unfolding aligned_closed_def aligned_with_def list_all_iff set_upt by (rule ball_upt)

lemma aligned_closed_cong:
  "nodes g' = nodes g \<Longrightarrow> num_nodes g' = num_nodes g \<Longrightarrow> aligned_closed g' = aligned_closed g"
  by (simp add: aligned_closed_def aligned_with_def)

lemma topological_sort_fields:
  assumes "topological_sort g = Some (Inr g')"
  shows "nodes g' = nodes g" "edges g' = edges g" "num_nodes g' = num_nodes g"
        "num_sequences g' = num_sequences g"
        "sequences_start_nodes_ids g' = sequences_start_nodes_ids g"
proof -
  have "g' = g \<or> (\<exists>dst. g' = g\<lparr>sorted_nodes_ids := dst, is_sorted := True\<rparr>)"
  proof (cases "is_sorted g")
    case True
    with assms show ?thesis by (simp add: topological_sort_def)
  next
    case False
    with assms obtain dst marks where
      "sort_loop (Suc (num_nodes g)) g [0 ..< num_nodes g] ([], replicate (num_nodes g) 0)
         = Some (Inr (dst, marks))"
      by (auto simp: topological_sort_def split: option.splits sum.splits)
    with assms False show ?thesis
      by (auto simp: topological_sort_def Let_def split: sum.splits if_splits)
  qed
  then show "nodes g' = nodes g" "edges g' = edges g" "num_nodes g' = num_nodes g"
        "num_sequences g' = num_sequences g"
        "sequences_start_nodes_ids g' = sequences_start_nodes_ids g"
    by auto
qed

lemma aligned_closed_add_node:
  assumes "aligned_closed g" "length (nodes g) = num_nodes g"
  shows "aligned_closed (snd (add_node g c t))"
proof -
  let ?g' = "snd (add_node g c t)"
  have al: "aligned_with ?g' a = (if a < num_nodes g then aligned_with g a else {})"
    if "a < Suc (num_nodes g)" for a
    using that assms(2) by (auto simp: add_node_def aligned_with_def nth_append createNode_def)
  have nn: "num_nodes ?g' = Suc (num_nodes g)" by (simp add: add_node_def)
  show ?thesis
    unfolding aligned_closed_iff nn
  proof (intro allI impI ballI)
    fix a b assume a: "a < Suc (num_nodes g)" and b: "b \<in> aligned_with ?g' a"
    with al[OF a] have a': "a < num_nodes g" and b': "b \<in> aligned_with g a"
      by (auto split: if_splits)
    from assms(1) a' b' have *: "b < num_nodes g" "b \<noteq> a" "a \<in> aligned_with g b"
      "\<forall>c \<in> aligned_with g b. c \<noteq> a \<longrightarrow> c \<in> aligned_with g a"
      unfolding aligned_closed_iff by blast+
    then show "b < Suc (num_nodes g) \<and> b \<noteq> a \<and> a \<in> aligned_with ?g' b \<and>
        (\<forall>c \<in> aligned_with ?g' b. c \<noteq> a \<longrightarrow> c \<in> aligned_with ?g' a)"
      using al[of a] al[of b] a' by simp
  qed
qed

lemma add_edge_aligned:
  assumes "add_edge g b e w = Inr g'" "length (nodes g) = num_nodes g"
  shows "num_nodes g' = num_nodes g \<and> length (nodes g') = num_nodes g \<and>
         num_sequences g' = num_sequences g \<and>
         (\<forall>n < num_nodes g. aligned_nodes_ids (nodes g' ! n) = aligned_nodes_ids (nodes g ! n) \<and>
              letter (nodes g' ! n) = letter (nodes g ! n) \<and>
              node_type (nodes g' ! n) = node_type (nodes g ! n))"
proof (cases "find_out_edge (edges g) (out_edges (nodes g ! b)) e")
  case None
  with assms show ?thesis
    by (auto simp: add_edge_def Let_def nth_list_update add_in_edge_def add_out_edge_def
           split: if_splits)
next
  case (Some h)
  with assms show ?thesis
    by (auto simp: add_edge_def split: if_splits)
qed

lemma aligned_closed_add_edge:
  assumes "aligned_closed g" "length (nodes g) = num_nodes g" "add_edge g b e w = Inr g'"
  shows "aligned_closed g'"
proof -
  from add_edge_aligned[OF assms(3,2)]
  have nn: "num_nodes g' = num_nodes g"
    and al: "\<And>n. n < num_nodes g \<Longrightarrow> aligned_with g' n = aligned_with g n"
    by (simp_all add: aligned_with_def)
  show ?thesis
    unfolding aligned_closed_iff nn
  proof (intro allI impI ballI)
    fix a b assume a: "a < num_nodes g" and b: "b \<in> aligned_with g' a"
    then have b': "b \<in> aligned_with g a" using al by simp
    from assms(1) a b' have *: "b < num_nodes g" "b \<noteq> a" "a \<in> aligned_with g b"
      "\<forall>c \<in> aligned_with g b. c \<noteq> a \<longrightarrow> c \<in> aligned_with g a"
      unfolding aligned_closed_iff by blast+
    then show "b < num_nodes g \<and> b \<noteq> a \<and> a \<in> aligned_with g' b \<and>
        (\<forall>c \<in> aligned_with g' b. c \<noteq> a \<longrightarrow> c \<in> aligned_with g' a)"
      using al[OF a] al[of b] by simp
  qed
qed


lemma link_aligned_props:
  assumes "new < length ns" "\<forall>a \<in> set aids. a < length ns \<and> a \<noteq> new"
  shows "length (link_aligned ns new aids) = length ns \<and>
         (\<forall>k < length ns.
            same_adjacency (ns ! k) (link_aligned ns new aids ! k) \<and>
            set (aligned_nodes_ids (link_aligned ns new aids ! k)) =
              set (aligned_nodes_ids (ns ! k)) \<union>
              (if k = new then set aids else if k \<in> set aids then {new} else {}))"
  using assms
proof (induction aids arbitrary: ns)
  case Nil
  then show ?case by (simp add: same_adjacency_def)
next
  case (Cons a aids)
  let ?ns1 = "ns[new := add_aligned_node_id (ns ! new) a]"
  let ?ns2 = "?ns1[a := add_aligned_node_id (?ns1 ! a) new]"
  have a: "a < length ns" "a \<noteq> new" using Cons.prems by simp_all
  have step: "\<forall>k < length ns. same_adjacency (ns ! k) (?ns2 ! k) \<and>
      set (aligned_nodes_ids (?ns2 ! k)) = set (aligned_nodes_ids (ns ! k)) \<union>
         (if k = new then {a} else if k = a then {new} else {})"
    using a Cons.prems(1)
    by (auto simp: nth_list_update same_adjacency_def add_aligned_node_id_def)
  have "length (link_aligned ?ns2 new aids) = length ?ns2 \<and>
         (\<forall>k < length ?ns2.
            same_adjacency (?ns2 ! k) (link_aligned ?ns2 new aids ! k) \<and>
            set (aligned_nodes_ids (link_aligned ?ns2 new aids ! k)) =
              set (aligned_nodes_ids (?ns2 ! k)) \<union>
              (if k = new then set aids else if k \<in> set aids then {new} else {}))"
    by (rule Cons.IH) (use Cons.prems in simp_all)
  then have IH: "length (link_aligned ?ns2 new aids) = length ns"
    "\<And>k. k < length ns \<Longrightarrow> same_adjacency (?ns2 ! k) (link_aligned ?ns2 new aids ! k) \<and>
            set (aligned_nodes_ids (link_aligned ?ns2 new aids ! k)) =
              set (aligned_nodes_ids (?ns2 ! k)) \<union>
              (if k = new then set aids else if k \<in> set aids then {new} else {})"
    by simp_all
  have "same_adjacency (ns ! k) (link_aligned ?ns2 new aids ! k) \<and>
            set (aligned_nodes_ids (link_aligned ?ns2 new aids ! k)) =
              set (aligned_nodes_ids (ns ! k)) \<union>
              (if k = new then set (a # aids) else if k \<in> set (a # aids) then {new} else {})"
    if k: "k < length ns" for k
  proof -
    from step k have 1: "same_adjacency (ns ! k) (?ns2 ! k)"
      "set (aligned_nodes_ids (?ns2 ! k)) = set (aligned_nodes_ids (ns ! k)) \<union>
         (if k = new then {a} else if k = a then {new} else {})" by simp_all
    from IH(2)[OF k] have 2: "same_adjacency (?ns2 ! k) (link_aligned ?ns2 new aids ! k)"
      "set (aligned_nodes_ids (link_aligned ?ns2 new aids ! k)) =
              set (aligned_nodes_ids (?ns2 ! k)) \<union>
              (if k = new then set aids else if k \<in> set aids then {new} else {})" by simp_all
    from 1(1) 2(1) have "same_adjacency (ns ! k) (link_aligned ?ns2 new aids ! k)"
      by (simp add: same_adjacency_def)
    moreover have "set (aligned_nodes_ids (link_aligned ?ns2 new aids ! k)) =
              set (aligned_nodes_ids (ns ! k)) \<union>
              (if k = new then set (a # aids) else if k \<in> set (a # aids) then {new} else {})"
      unfolding 2(2) 1(2) using a by auto
    ultimately show ?thesis by simp
  qed
  with IH(1) show ?case by (simp add: Let_def)
qed

lemma wf_graph_aligned_update:
  assumes "wf_graph g" "length ns = num_nodes g"
      and "\<forall>k < num_nodes g. same_adjacency (nodes g ! k) (ns ! k) \<and>
             (\<forall>a \<in> set (aligned_nodes_ids (ns ! k)). a < num_nodes g)"
  shows "wf_graph (g\<lparr>nodes := ns\<rparr>)"
proof -
  have "node_ok (g\<lparr>nodes := ns\<rparr>) n" if "n < num_nodes g" for n
  proof -
    from assms(1) that have "node_ok g n" by (simp add: wf_graph_iff)
    with assms(3) that show ?thesis
      by (simp add: node_ok_def same_adjacency_def list_all_iff)
  qed
  moreover have "edge_ok (g\<lparr>nodes := ns\<rparr>) h" if "h < length (edges g)" for h
  proof -
    from assms(1) that have "edge_ok g h" by (simp add: wf_graph_iff)
    with assms(3) show ?thesis
      by (simp add: edge_ok_def same_adjacency_def)
  qed
  ultimately show ?thesis using assms(2) by (simp add: wf_graph_iff)
qed

lemma closure_extend:
  fixes al al' :: "nat \<Rightarrow> nat set"
  assumes old: "\<forall>a<N. \<forall>b\<in>al a. b < N \<and> b \<noteq> a \<and> a \<in> al b \<and> (\<forall>c\<in>al b. c \<noteq> a \<longrightarrow> c \<in> al a)"
      and k: "k < N"
      and new: "al' N = insert k (al k)"
      and upd: "\<forall>j<N. al' j = al j \<union> (if j = k \<or> j \<in> al k then {N} else {})"
  shows "\<forall>a<Suc N. \<forall>b\<in>al' a. b < Suc N \<and> b \<noteq> a \<and> a \<in> al' b \<and> (\<forall>c\<in>al' b. c \<noteq> a \<longrightarrow> c \<in> al' a)"
proof (intro allI impI ballI)
  fix a b assume a: "a < Suc N" and b: "b \<in> al' a"
  have A: "\<And>x. x \<in> al k \<Longrightarrow> x < N \<and> x \<noteq> k \<and> k \<in> al x" using old k by blast
  have tr: "\<And>x y z. x < N \<Longrightarrow> y \<in> al x \<Longrightarrow> z \<in> al y \<Longrightarrow> z \<noteq> x \<Longrightarrow> z \<in> al x" using old by blast
  have sy: "\<And>x y. x < N \<Longrightarrow> y \<in> al x \<Longrightarrow> y < N \<and> y \<noteq> x \<and> x \<in> al y" using old by blast
  have u: "\<And>j. j < N \<Longrightarrow> al' j = al j \<union> (if j = k \<or> j \<in> al k then {N} else {})" using upd by blast
  show "b < Suc N \<and> b \<noteq> a \<and> a \<in> al' b \<and> (\<forall>c\<in>al' b. c \<noteq> a \<longrightarrow> c \<in> al' a)"
  proof (cases "a = N")
    case True
    with b new have bk: "b = k \<or> b \<in> al k" by simp
    then have bN: "b < N" using k A by blast
    have 1: "a \<in> al' b" using u[OF bN] bk True by simp
    have 2: "c \<in> al' a" if "c \<in> al' b" "c \<noteq> a" for c
    proof -
      from that u[OF bN] True have "c \<in> al b" by (auto split: if_splits)
      with bk have "c = k \<or> c \<in> al k" using tr[OF k, of b c] by blast
      then show ?thesis using new True by simp
    qed
    from bN 1 2 True show ?thesis by auto
  next
    case False
    with a have aN: "a < N" by simp
    show ?thesis
    proof (cases "b = N")
      case True
      with b u[OF aN] sy[OF aN] have ak: "a = k \<or> a \<in> al k" by (auto split: if_splits)
      have 1: "a \<in> al' b" using True new ak by simp
      have 2: "c \<in> al' a" if "c \<in> al' b" "c \<noteq> a" for c
      proof -
        from that True new have ck: "c = k \<or> c \<in> al k" by simp
        have "c \<in> al a"
        proof (cases "a = k")
          case True
          with ck that(2) show ?thesis by blast
        next
          case False
          with ak have ka: "a \<in> al k" by simp
          then have "k \<in> al a" using A by blast
          moreover have "c \<in> al k \<Longrightarrow> c \<in> al a" using tr[OF aN \<open>k \<in> al a\<close>] that(2) by blast
          ultimately show ?thesis using ck by blast
        qed
        then show ?thesis using u[OF aN] by simp
      qed
      from True aN 1 2 show ?thesis by auto
    next
      case bN': False
      with b u[OF aN] have ba: "b \<in> al a" by (auto split: if_splits)
      note s = sy[OF aN ba]
      then have bN: "b < N" by simp
      have 1: "a \<in> al' b" using u[OF bN] s by simp
      have 2: "c \<in> al' a" if "c \<in> al' b" "c \<noteq> a" for c
      proof (cases "c = N")
        case True
        with that u[OF bN] sy[OF bN] have bk: "b = k \<or> b \<in> al k" by (auto split: if_splits)
        have "a = k \<or> a \<in> al k"
        proof (cases "b = k")
          case True
          with s show ?thesis by simp
        next
          case False
          with bk have "b \<in> al k" by simp
          from tr[OF k this, of a] s show ?thesis by blast
        qed
        then show ?thesis using u[OF aN] True by simp
      next
        case False
        with that u[OF bN] have "c \<in> al b" by (auto split: if_splits)
        with tr[OF aN ba, of c] that(2) have "c \<in> al a" by blast
        then show ?thesis using u[OF aN] by simp
      qed
      from s 1 2 show ?thesis by auto
    qed
  qed
qed


lemma find_aligned_letter_result:
  "find_aligned_letter ns aids c = - 1 \<or>
   (0 \<le> find_aligned_letter ns aids c \<and> nat (find_aligned_letter ns aids c) \<in> set aids)"
  by (induction aids) auto

text \<open>The creation of a variant node.\<close>

lemma resolve_node_variant:
  assumes "wf_graph g" "aligned_closed g" "k < num_nodes g" "letter (nodes g ! k) \<noteq> c"
      and "find_aligned_letter (nodes g) (aligned_nodes_ids (nodes g ! k)) c = - 1"
  shows "\<exists>g'. resolve_node g (int k) c = Inr (num_nodes g, g') \<and>
           num_nodes g' = Suc (num_nodes g) \<and> length (nodes g') = Suc (num_nodes g) \<and>
           edges g' = edges g \<and> num_sequences g' = num_sequences g \<and>
           g' = (snd (add_node g c 1))\<lparr>nodes := nodes g'\<rparr> \<and>
           (\<forall>j < num_nodes g. same_adjacency (nodes g ! j) (nodes g' ! j)) \<and>
           same_adjacency (createNode (num_nodes g) c 1) (nodes g' ! num_nodes g) \<and>
           aligned_with g' (num_nodes g) = insert k (aligned_with g k) \<and>
           (\<forall>j < num_nodes g. aligned_with g' j =
               aligned_with g j \<union> (if j = k \<or> j \<in> aligned_with g k then {num_nodes g} else {}))"
proof -
  let ?N = "num_nodes g" and ?A = "aligned_nodes_ids (nodes g ! k)"
  have len: "length (nodes g) = ?N" using assms(1) by (rule wf_length)
  let ?n0 = "nodes g @ [createNode ?N c 1]"
  have A: "\<forall>a \<in> set ?A. a < ?N \<and> a \<noteq> k"
    using assms(2,3) unfolding aligned_closed_iff aligned_with_def by blast
  let ?ns1 = "link_aligned ?n0 ?N ?A"
  have l1: "length ?ns1 = length ?n0 \<and>
         (\<forall>j < length ?n0.
            same_adjacency (?n0 ! j) (?ns1 ! j) \<and>
            set (aligned_nodes_ids (?ns1 ! j)) =
              set (aligned_nodes_ids (?n0 ! j)) \<union>
              (if j = ?N then set ?A else if j \<in> set ?A then {?N} else {}))"
    by (rule link_aligned_props) (use A len in auto)
  let ?ns2 = "?ns1[?N := add_aligned_node_id (?ns1 ! ?N) k]"
  let ?ns3 = "?ns2[k := add_aligned_node_id (?ns2 ! k) ?N]"
  let ?g' = "g\<lparr>nodes := ?ns3, num_nodes := Suc ?N\<rparr>"
  have res: "resolve_node g (int k) c = Inr (?N, ?g')"
    using assms(3,4,5) len by (simp add: resolve_node_def Let_def add_node_def)
  have len1: "length ?ns1 = Suc ?N" using l1 len by simp
  have p: "same_adjacency (?n0 ! j) (?ns3 ! j) \<and>
           set (aligned_nodes_ids (?ns3 ! j)) = set (aligned_nodes_ids (?n0 ! j)) \<union>
              (if j = ?N then insert k (set ?A) else if j = k \<or> j \<in> set ?A then {?N} else {})"
    if j: "j < Suc ?N" for j
  proof -
    from l1 j len have 1: "same_adjacency (?n0 ! j) (?ns1 ! j)"
      "set (aligned_nodes_ids (?ns1 ! j)) = set (aligned_nodes_ids (?n0 ! j)) \<union>
              (if j = ?N then set ?A else if j \<in> set ?A then {?N} else {})"
      by simp_all
    have 2: "same_adjacency (?ns1 ! j) (?ns3 ! j)"
      using j len1 assms(3) by (simp add: nth_list_update same_adjacency_def add_aligned_node_id_def)
    have 3: "set (aligned_nodes_ids (?ns3 ! j)) = set (aligned_nodes_ids (?ns1 ! j)) \<union>
               (if j = ?N then {k} else if j = k then {?N} else {})"
      using j len1 assms(3) by (auto simp: nth_list_update add_aligned_node_id_def)
    from 1(1) 2 have "same_adjacency (?n0 ! j) (?ns3 ! j)" by (simp add: same_adjacency_def)
    moreover have "set (aligned_nodes_ids (?ns3 ! j)) = set (aligned_nodes_ids (?n0 ! j)) \<union>
              (if j = ?N then insert k (set ?A) else if j = k \<or> j \<in> set ?A then {?N} else {})"
      unfolding 3 1(2) using A by auto
    ultimately show ?thesis by simp
  qed
  have old: "?n0 ! j = nodes g ! j" if "j < ?N" for j using that len by (simp add: nth_append)
  have new: "?n0 ! ?N = createNode ?N c 1" using len by (simp add: nth_append)
  have n3: "nodes ?g' = ?ns3" by simp
  have 1: "aligned_with ?g' ?N = insert k (aligned_with g k)"
    unfolding aligned_with_def n3 using p[of ?N] new by (simp add: createNode_def)
  have 2: "aligned_with ?g' j =
               aligned_with g j \<union> (if j = k \<or> j \<in> aligned_with g k then {?N} else {})"
    if "j < ?N" for j
    unfolding aligned_with_def n3 using p[of j] old[OF that] that by simp
  have 3: "same_adjacency (nodes g ! j) (nodes ?g' ! j)" if "j < ?N" for j
    unfolding n3 using p[of j] old[OF that] that by simp
  have 4: "same_adjacency (createNode ?N c 1) (nodes ?g' ! ?N)"
    unfolding n3 using p[of ?N] new by simp
  have 5: "length (nodes ?g') = Suc ?N" unfolding n3 using len1 by simp
  have 6: "?g' = (snd (add_node g c 1))\<lparr>nodes := nodes ?g'\<rparr>"
    by (simp add: add_node_def)
  show ?thesis
    by (intro exI[of _ ?g'] conjI res allI impI 1 2 3 4 5 6) simp_all
qed

lemma resolve_node_inv:
  assumes "wf_graph g" "aligned_closed g" "resolve_node g nid c = Inr (new, g')"
  shows "wf_graph g' \<and> aligned_closed g' \<and> new < num_nodes g' \<and>
         num_sequences g' = num_sequences g"
proof -
  have len: "length (nodes g) = num_nodes g" using assms(1) by (rule wf_length)
  show ?thesis
  proof (cases "nid = - 1")
    case True
    with assms(3) have "new = num_nodes g" "g' = snd (add_node g c 0)"
      by (auto simp: resolve_node_def add_node_def)
    then show ?thesis
      using wf_add_node[OF assms(1)] aligned_closed_add_node[OF assms(2) len]
      by (simp add: add_node_def)
  next
    case False
    with assms(3) have r: "0 \<le> nid" "nat nid < num_nodes g"
      by (auto simp: resolve_node_def len split: if_splits)
    let ?k = "nat nid"
    have nid: "nid = int ?k" using r by simp
    show ?thesis
    proof (cases "letter (nodes g ! ?k) = c")
      case True
      with assms(3) False r have "new = ?k" "g' = g"
        by (auto simp: resolve_node_def len Let_def)
      with assms r show ?thesis by simp
    next
      case nl: False
      let ?a = "find_aligned_letter (nodes g) (aligned_nodes_ids (nodes g ! ?k)) c"
      show ?thesis
      proof (cases "?a = - 1")
        case True
        from resolve_node_variant[OF assms(1,2) r(2) nl True] assms(3) nid
        have g': "num_nodes g' = Suc (num_nodes g)" "length (nodes g') = Suc (num_nodes g)"
           "edges g' = edges g" "num_sequences g' = num_sequences g" "new = num_nodes g"
           "g' = (snd (add_node g c 1))\<lparr>nodes := nodes g'\<rparr>"
           "\<forall>j < num_nodes g. same_adjacency (nodes g ! j) (nodes g' ! j)"
           "same_adjacency (createNode (num_nodes g) c 1) (nodes g' ! num_nodes g)"
           "aligned_with g' (num_nodes g) = insert ?k (aligned_with g ?k)"
           "\<forall>j < num_nodes g. aligned_with g' j =
               aligned_with g j \<union> (if j = ?k \<or> j \<in> aligned_with g ?k then {num_nodes g} else {})"
          by auto
        have cl: "aligned_closed g'"
          unfolding aligned_closed_iff g'(1)
          by (rule closure_extend[OF assms(2)[unfolded aligned_closed_iff] r(2) g'(9,10)])
        let ?g1 = "snd (add_node g c 1)"
        have wf1: "wf_graph ?g1" using wf_add_node[OF assms(1)] .
        have eq: "g' = ?g1\<lparr>nodes := nodes g'\<rparr>" using g'(6) .
        have "wf_graph (?g1\<lparr>nodes := nodes g'\<rparr>)"
        proof (rule wf_graph_aligned_update[OF wf1])
          show "length (nodes g') = num_nodes ?g1" using g'(2) by (simp add: add_node_def)
          show "\<forall>j < num_nodes ?g1. same_adjacency (nodes ?g1 ! j) (nodes g' ! j) \<and>
             (\<forall>a \<in> set (aligned_nodes_ids (nodes g' ! j)). a < num_nodes ?g1)"
          proof (intro allI impI conjI ballI)
            fix j assume j: "j < num_nodes ?g1"
            then have j': "j < Suc (num_nodes g)" by (simp add: add_node_def)
            show "same_adjacency (nodes ?g1 ! j) (nodes g' ! j)"
              using g'(7,8) j' len by (cases "j = num_nodes g") (simp_all add: add_node_def nth_append)
            fix a assume "a \<in> set (aligned_nodes_ids (nodes g' ! j))"
            then have "a \<in> aligned_with g' j" by (simp add: aligned_with_def)
            with cl[unfolded aligned_closed_iff g'(1)] j' have "a < Suc (num_nodes g)" by blast
            then show "a < num_nodes ?g1" by (simp add: add_node_def)
          qed
        qed
        then have "wf_graph g'" by (subst eq)
        with cl g'(1,4,5) show ?thesis by simp
      next
        case fa: False
        with assms(3) False r nl have "new = nat ?a" "g' = g"
          by (auto simp: resolve_node_def len Let_def)
        moreover from find_aligned_letter_result[of "nodes g" "aligned_nodes_ids (nodes g ! ?k)" c] fa
        have "nat ?a \<in> aligned_with g ?k" by (simp add: aligned_with_def)
        then have "nat ?a < num_nodes g" using assms(2) r(2) unfolding aligned_closed_iff by blast
        ultimately show ?thesis using assms by simp
      qed
    qed
  qed
qed


lemma add_edge_inv:
  assumes "wf_graph g" "aligned_closed g" "add_edge g b e w = Inr g'"
  shows "wf_graph g' \<and> aligned_closed g' \<and> num_sequences g' = num_sequences g \<and>
         num_nodes g' = num_nodes g"
  using wf_add_edge[OF assms(1,3)] aligned_closed_add_edge[OF assms(2) wf_length[OF assms(1)] assms(3)]
    add_edge_aligned[OF assms(3) wf_length[OF assms(1)]]
  by simp

lemma add_node_inv:
  assumes "wf_graph g" "aligned_closed g"
  shows "wf_graph (snd (add_node g c t)) \<and> aligned_closed (snd (add_node g c t)) \<and>
         num_sequences (snd (add_node g c t)) = num_sequences g \<and>
         num_nodes (snd (add_node g c t)) = Suc (num_nodes g) \<and> fst (add_node g c t) = num_nodes g"
  using wf_add_node[OF assms(1)] aligned_closed_add_node[OF assms(2) wf_length[OF assms(1)]]
  by (simp add: add_node_def)

lemma add_sequence_loop_inv:
  assumes "wf_graph g" "aligned_closed g" "add_sequence_loop g s ws js = Inr g'"
  shows "wf_graph g' \<and> aligned_closed g' \<and> num_sequences g' = num_sequences g \<and>
         num_nodes g \<le> num_nodes g'"
  using assms
proof (induction js arbitrary: g)
  case Nil
  then show ?case by simp
next
  case (Cons i js)
  let ?g1 = "snd (add_node g (s ! i) 0)"
  note n = add_node_inv[OF Cons.prems(1,2), of "s ! i" 0]
  from Cons.prems(3) obtain g2 where
    e: "add_edge ?g1 (num_nodes g - 1) (num_nodes g) (float_add (ws ! (i - 1)) (ws ! i)) = Inr g2"
    and r: "add_sequence_loop g2 s ws js = Inr g'"
    by (auto simp: add_node_def split: if_splits sum.splits)
  from n have n1: "wf_graph ?g1" and n2: "aligned_closed ?g1" by simp_all
  note a = add_edge_inv[OF n1 n2 e]
  from a have a1: "wf_graph g2" and a2: "aligned_closed g2" by simp_all
  from Cons.IH[OF a1 a2 r] a n show ?case by simp
qed

lemma add_sequence_inv:
  assumes "wf_graph g" "aligned_closed g" "add_sequence g s ws b e = Inr (r, g')"
  shows "wf_graph g' \<and> aligned_closed g' \<and> num_sequences g' = num_sequences g \<and>
         num_nodes g \<le> num_nodes g' \<and>
         (r = - 1 \<and> g' = g \<or> r = int (num_nodes g) \<and> num_nodes g < num_nodes g')"
proof (cases "b = e")
  case True
  with assms show ?thesis by (simp add: add_sequence_def)
next
  case False
  let ?g1 = "snd (add_node g (s ! b) 0)"
  note n = add_node_inv[OF assms(1,2), of "s ! b" 0]
  from assms(3) False have l: "add_sequence_loop ?g1 s ws [b + 1 ..< e] = Inr g'"
    and r: "r = int (num_nodes g)"
    by (auto simp: add_sequence_def add_node_def split: if_splits sum.splits)
  from n have n1: "wf_graph ?g1" and n2: "aligned_closed ?g1" by simp_all
  from add_sequence_loop_inv[OF n1 n2 l] n r show ?thesis by simp
qed

lemma alignment_loop_inv:
  assumes "wf_graph g" "aligned_closed g" "alignment_loop g s ws cols st = Inr (g', st')"
  shows "wf_graph g' \<and> aligned_closed g' \<and> num_sequences g' = num_sequences g"
  using assms
proof (induction cols arbitrary: g st)
  case Nil
  then show ?case by simp
next
  case (Cons col cols)
  obtain nid sid where col: "col = (nid, sid)" by (cases col)
  obtain start head prev where st: "st = (start, head, prev)" by (cases st)
  show ?case
  proof (cases "sid = - 1")
    case True
    with Cons.prems(3) have "alignment_loop g s ws cols st = Inr (g', st')"
      by (simp add: col st)
    from Cons.IH[OF Cons.prems(1,2) this] show ?thesis .
  next
    case False
    with Cons.prems(3) obtain new g1 g2 st2 where
      rn: "resolve_node g nid (s ! nat sid) = Inr (new, g1)"
      and ae: "(if head \<noteq> - 1 then add_edge g1 (nat head) new (float_add prev (ws ! nat sid)) else Inr g1) = Inr g2"
      and rest: "alignment_loop g2 s ws cols st2 = Inr (g', st')"
      by (auto simp: col st split: if_splits sum.splits)
    note r = resolve_node_inv[OF Cons.prems(1,2) rn]
    then have r1: "wf_graph g1" and r2: "aligned_closed g1" by simp_all
    have "wf_graph g2 \<and> aligned_closed g2 \<and> num_sequences g2 = num_sequences g1"
    proof (cases "head \<noteq> - 1")
      case True
      with ae have "add_edge g1 (nat head) new (float_add prev (ws ! nat sid)) = Inr g2" by simp
      from add_edge_inv[OF r1 r2 this] show ?thesis by simp
    next
      case False
      with ae r1 r2 show ?thesis by simp
    qed
    with Cons.IH[OF _ _ rest] r show ?thesis by simp
  qed
qed

lemma topological_sort_inv:
  assumes "wf_graph g" "aligned_closed g" "topological_sort g = Some (Inr g')"
  shows "wf_graph g' \<and> aligned_closed g'"
  using topological_sort_fields[OF assms(3)] assms(1,2)
    wf_graph_cong[of g' g] aligned_closed_cong[of g' g]
  by simp

lemma createGraph_inv:
  assumes "createGraph s ws = Some (Inr g)"
  shows "wf_graph g \<and> aligned_closed g"
proof -
  let ?g0 = "empty_graph\<lparr>alphabet := set s\<rparr>"
  have 0: "wf_graph ?g0" "aligned_closed ?g0"
    using wf_empty_graph wf_graph_cong[of ?g0 empty_graph]
    by (simp_all add: aligned_closed_def empty_graph_def)
  from assms obtain r g1 where
    a: "add_sequence ?g0 s ws 0 (length s) = Inr (r, g1)"
    and t: "topological_sort (g1\<lparr>sequences_start_nodes_ids := sequences_start_nodes_ids g1 @ [r],
                num_sequences := Suc (num_sequences g1)\<rparr>) = Some (Inr g)"
    by (auto simp: createGraph_def split: if_splits sum.splits)
  let ?g2 = "g1\<lparr>sequences_start_nodes_ids := sequences_start_nodes_ids g1 @ [r],
                num_sequences := Suc (num_sequences g1)\<rparr>"
  from add_sequence_inv[OF 0 a] have "wf_graph g1" "aligned_closed g1" by simp_all
  then have "wf_graph ?g2" "aligned_closed ?g2"
    using wf_graph_cong[of ?g2 g1] aligned_closed_cong[of ?g2 g1] by simp_all
  from topological_sort_inv[OF this t] show ?thesis .
qed


lemma add_alignment_inv:
  assumes "wf_graph g" "aligned_closed g" "add_alignment g alignment s ws = Some (Inr g')"
  shows "wf_graph g' \<and> aligned_closed g'"
proof -
  let ?g0 = "g\<lparr>alphabet := alphabet g \<union> set s\<rparr>"
  have 0: "wf_graph ?g0" "aligned_closed ?g0"
    using assms(1,2) wf_graph_cong[of ?g0 g] aligned_closed_cong[of ?g0 g] by simp_all
  show ?thesis
  proof (cases "snd alignment = []")
    case True
    with assms(3) obtain r g1 where
      a: "add_sequence ?g0 s ws 0 (length s) = Inr (r, g1)"
      and t: "topological_sort (g1\<lparr>num_sequences := Suc (num_sequences g1),
                sequences_start_nodes_ids := sequences_start_nodes_ids g1 @ [r],
                is_sorted := False\<rparr>) = Some (Inr g')"
      by (auto simp: add_alignment_def Let_def split: if_splits sum.splits)
    let ?g2 = "g1\<lparr>num_sequences := Suc (num_sequences g1),
                sequences_start_nodes_ids := sequences_start_nodes_ids g1 @ [r],
                is_sorted := False\<rparr>"
    from add_sequence_inv[OF 0 a] have "wf_graph g1" "aligned_closed g1" by simp_all
    then have "wf_graph ?g2" "aligned_closed ?g2"
      using wf_graph_cong[of ?g2 g1] aligned_closed_cong[of ?g2 g1] by simp_all
    from topological_sort_inv[OF this t] show ?thesis .
  next
    case False
    define valid where "valid = map to_uint32 (filter (\<lambda>x. x \<noteq> - 1) (snd alignment))"
    from assms(3) False obtain r1 g1 r2 g2 st g3 st3 g4 start where
      a1: "add_sequence ?g0 s ws 0 (hd valid) = Inr (r1, g1)"
      and a2: "add_sequence g1 s ws (to_uint32 (int (last valid) + 1)) (length s) = Inr (r2, g2)"
      and lp: "alignment_loop g2 s ws (zip (fst alignment) (snd alignment)) st = Inr (g3, st3)"
      and ae: "(if r2 \<noteq> - 1 then add_edge g3 (nat (fst (snd st3))) (nat r2)
                  (float_add (snd (snd st3)) (ws ! (last valid + 1))) else Inr g3) = Inr g4"
      and t: "topological_sort (g4\<lparr>num_sequences := Suc (num_sequences g4),
                sequences_start_nodes_ids := sequences_start_nodes_ids g4 @ [start],
                is_sorted := False\<rparr>) = Some (Inr g')"
      unfolding add_alignment_def Let_def valid_def[symmetric]
      by (auto split: if_splits sum.splits prod.splits)
    let ?g5 = "g4\<lparr>num_sequences := Suc (num_sequences g4),
                sequences_start_nodes_ids := sequences_start_nodes_ids g4 @ [start],
                is_sorted := False\<rparr>"
    from add_sequence_inv[OF 0 a1] have 1: "wf_graph g1" "aligned_closed g1" by simp_all
    from add_sequence_inv[OF 1 a2] have 2: "wf_graph g2" "aligned_closed g2" by simp_all
    from alignment_loop_inv[OF 2 lp] have 3: "wf_graph g3" "aligned_closed g3" by simp_all
    have 4: "wf_graph g4 \<and> aligned_closed g4"
    proof (cases "r2 \<noteq> - 1")
      case True
      with ae have "add_edge g3 (nat (fst (snd st3))) (nat r2)
                  (float_add (snd (snd st3)) (ws ! (last valid + 1))) = Inr g4" by simp
      from add_edge_inv[OF 3 this] show ?thesis by simp
    next
      case False
      with ae 3 show ?thesis by simp
    qed
    then have "wf_graph ?g5" "aligned_closed ?g5"
      using wf_graph_cong[of ?g5 g4] aligned_closed_cong[of ?g5 g4] by simp_all
    from topological_sort_inv[OF this t] show ?thesis .
  qed
qed

lemma traverse_heaviest_bundle_fields:
  "traverse_heaviest_bundle g = Some (Inr g') \<Longrightarrow> \<exists>c. g' = g\<lparr>consensus := c\<rparr>"
  by (auto simp: traverse_heaviest_bundle_def split: if_splits sum.splits option.splits prod.splits)

lemma generate_consensus_fields:
  "generate_consensus g = Some (Inr (c, g')) \<Longrightarrow> \<exists>c. g' = g\<lparr>consensus := c\<rparr>"
  using traverse_heaviest_bundle_fields[of g]
  by (auto simp: generate_consensus_def split: option.splits sum.splits)

lemma generate_msa_fields:
  "generate_msa g b = Some (Inr (rows, g')) \<Longrightarrow> g' = g \<or> (\<exists>c. g' = g\<lparr>consensus := c\<rparr>)"
  using traverse_heaviest_bundle_fields[of g]
  by (auto simp: generate_msa_def split: option.splits sum.splits prod.splits if_splits)

lemma reachable_inv: "reachable g \<Longrightarrow> wf_graph g \<and> aligned_closed g"
proof (induction rule: reachable.induct)
  case (reachable_create s ws g)
  then show ?case by (rule createGraph_inv)
next
  case (reachable_align g alignment s ws g')
  then show ?case using add_alignment_inv by blast
next
  case (reachable_consensus g c g')
  from generate_consensus_fields[OF reachable_consensus(2)] obtain c' where
    "g' = g\<lparr>consensus := c'\<rparr>" by blast
  with reachable_consensus(3) wf_graph_cong[of g' g] aligned_closed_cong[of g' g]
  show ?case by simp
next
  case (reachable_msa g b rows g')
  from generate_msa_fields[OF reachable_msa(2)]
  have "nodes g' = nodes g" "edges g' = edges g" "num_nodes g' = num_nodes g" by auto
  with reachable_msa(3) wf_graph_cong[of g' g] aligned_closed_cong[of g' g]
  show ?case by simp
qed

subsection \<open>C6: the aligned-node relation\<close>

text \<open>
  C6: in every graph that the interface can build, the aligned-node relation relates
  nodes of the graph only and no node with itself, it is symmetric, and if \<open>a\<close> is
  aligned with \<open>b\<close> and \<open>b\<close> with a third node \<open>c\<close>, then \<open>a\<close> is aligned with \<open>c\<close>.
  \<open>add_alignment\<close> keeps the relation closed.  When a column of the correspondence
  names a node \<open>k\<close> with another letter and no node aligned with \<open>k\<close> has the letter
  either, a new node is created; it is aligned with \<open>k\<close> and with every node that
  was aligned with \<open>k\<close>, and each of these is aligned with it.
\<close>

theorem C6_aligned_relation_closed:
  "(reachable g \<longrightarrow>
      (\<forall>a < num_nodes g. \<forall>b \<in> aligned_with g a.
          b < num_nodes g \<and> b \<noteq> a \<and> a \<in> aligned_with g b \<and>
          (\<forall>c \<in> aligned_with g b. c \<noteq> a \<longrightarrow> c \<in> aligned_with g a))) \<and>
   (wf_graph g \<and> aligned_closed g \<and> add_alignment g alignment s ws = Some (Inr g') \<longrightarrow>
      aligned_closed g') \<and>
   (wf_graph g \<and> aligned_closed g \<and> k < num_nodes g \<and> letter (nodes g ! k) \<noteq> c \<and>
    find_aligned_letter (nodes g) (aligned_nodes_ids (nodes g ! k)) c = - 1 \<longrightarrow>
      (\<exists>g1. resolve_node g (int k) c = Inr (num_nodes g, g1) \<and> aligned_closed g1 \<and>
         aligned_with g1 (num_nodes g) = insert k (aligned_with g k) \<and>
         (\<forall>j \<in> insert k (aligned_with g k). num_nodes g \<in> aligned_with g1 j)))"
proof (intro conjI impI)
  assume "reachable g"
  then have "aligned_closed g" using reachable_inv by blast
  then show "\<forall>a < num_nodes g. \<forall>b \<in> aligned_with g a.
          b < num_nodes g \<and> b \<noteq> a \<and> a \<in> aligned_with g b \<and>
          (\<forall>c \<in> aligned_with g b. c \<noteq> a \<longrightarrow> c \<in> aligned_with g a)"
    unfolding aligned_closed_iff .
next
  assume "wf_graph g \<and> aligned_closed g \<and> add_alignment g alignment s ws = Some (Inr g')"
  then show "aligned_closed g'" using add_alignment_inv by blast
next
  assume a: "wf_graph g \<and> aligned_closed g \<and> k < num_nodes g \<and> letter (nodes g ! k) \<noteq> c \<and>
    find_aligned_letter (nodes g) (aligned_nodes_ids (nodes g ! k)) c = - 1"
  then have wf: "wf_graph g" and cl: "aligned_closed g" and k: "k < num_nodes g" by simp_all
  from a resolve_node_variant[OF wf cl k, of c] obtain g1 where
    r: "resolve_node g (int k) c = Inr (num_nodes g, g1)"
    and n: "aligned_with g1 (num_nodes g) = insert k (aligned_with g k)"
    and o: "\<forall>j < num_nodes g. aligned_with g1 j =
               aligned_with g j \<union> (if j = k \<or> j \<in> aligned_with g k then {num_nodes g} else {})"
    by blast
  have c1: "aligned_closed g1" using resolve_node_inv[OF wf cl r] by simp
  have "num_nodes g \<in> aligned_with g1 j" if "j \<in> insert k (aligned_with g k)" for j
  proof -
    from that k cl have "j < num_nodes g" unfolding aligned_closed_iff by blast
    with o that show ?thesis by auto
  qed
  with r n c1 show "\<exists>g1. resolve_node g (int k) c = Inr (num_nodes g, g1) \<and> aligned_closed g1 \<and>
         aligned_with g1 (num_nodes g) = insert k (aligned_with g k) \<and>
         (\<forall>j \<in> insert k (aligned_with g k). num_nodes g \<in> aligned_with g1 j)"
    by blast
qed

theorem C6_aligned_relation_witness:
  "reachable acgt_acct_graph \<and> aligned_with acgt_acct_graph 2 = {4} \<and>
   aligned_with acgt_acct_graph 4 = {2} \<and>
   4 < num_nodes acgt_acct_graph \<and> 4 \<in> aligned_with acgt_acct_graph 2 \<and>
   2 \<in> aligned_with acgt_acct_graph 4 \<and>
   wf_graph acgt_graph \<and> aligned_closed acgt_graph \<and>
   add_alignment acgt_graph ([0, 1, 2, 3], [0, 1, 2, 3]) ''ACCT'' [1, 1, 1, 1]
     = Some (Inr acgt_acct_graph) \<and>
   aligned_closed acgt_acct_graph \<and>
   2 < num_nodes acgt_graph \<and> letter (nodes acgt_graph ! 2) \<noteq> CHR ''C'' \<and>
   find_aligned_letter (nodes acgt_graph) (aligned_nodes_ids (nodes acgt_graph ! 2)) CHR ''C'' = - 1 \<and>
   (\<exists>g1. resolve_node acgt_graph 2 CHR ''C'' = Inr (4, g1) \<and> aligned_with g1 4 = {2} \<and>
      4 \<in> aligned_with g1 2)"
proof -
  have c: "createGraph ''ACGT'' [1, 1, 1, 1] = Some (Inr acgt_graph)"
    by code_simp
  have a: "add_alignment acgt_graph ([0, 1, 2, 3], [0, 1, 2, 3]) ''ACCT'' [1, 1, 1, 1]
     = Some (Inr acgt_acct_graph)"
    by code_simp
  have r: "reachable acgt_acct_graph"
    using reachable_align[OF reachable_create[OF c] a] .
  have e: "aligned_with acgt_acct_graph 2 = {4}" "aligned_with acgt_acct_graph 4 = {2}"
    "wf_graph acgt_graph" "aligned_closed acgt_graph" "num_nodes acgt_graph = 4"
    "letter (nodes acgt_graph ! 2) \<noteq> CHR ''C''" "aligned_with acgt_graph 2 = {}"
    "find_aligned_letter (nodes acgt_graph) (aligned_nodes_ids (nodes acgt_graph ! 2)) CHR ''C'' = - 1"
    by code_simp+
  note t = C6_aligned_relation_closed[of acgt_graph "([0, 1, 2, 3], [0, 1, 2, 3])" "''ACCT''"
      "[1, 1, 1, 1]" acgt_acct_graph 2 "CHR ''C''"]
  have 2: "aligned_closed acgt_acct_graph" using t a e by blast
  have 3: "\<exists>g1. resolve_node acgt_graph 2 CHR ''C'' = Inr (4, g1) \<and> aligned_with g1 4 = {2} \<and>
      4 \<in> aligned_with g1 2"
    using t e by auto
  have n: "4 < num_nodes acgt_acct_graph" "2 < num_nodes acgt_acct_graph" by code_simp+
  have 0: "4 \<in> aligned_with acgt_acct_graph 2" using e by simp
  have 1: "2 \<in> aligned_with acgt_acct_graph 4"
    using C6_aligned_relation_closed[of acgt_acct_graph] r n 0 by blast
  from r e a n 0 1 2 3 show ?thesis by simp
qed

subsection \<open>The depth-first search of the topological sort\<close>

lemma dfs_post_refl: "dfs_post s s"
  by (simp add: dfs_post_def)

lemma dfs_post_trans: "dfs_post s s1 \<Longrightarrow> dfs_post s1 s2 \<Longrightarrow> dfs_post s s2"
  by (auto simp: dfs_post_def)

lemma dfs_start:
  assumes "dfs_inv g (dst, marks)" "n < num_nodes g" "marks ! n = 0"
  shows "dfs_inv g (dst, marks[n := 1])" "unmarked (marks[n := 1]) < unmarked marks"
proof -
  from assms(1) have len: "length marks = num_nodes g" by (simp add: dfs_inv_def)
  show "dfs_inv g (dst, marks[n := 1])"
    using assms by (auto simp: dfs_inv_def nth_list_update)
  have "{k. k < length (marks[n := 1]) \<and> marks[n := 1] ! k = 0}
          \<subset> {k. k < length marks \<and> marks ! k = 0}"
    using assms(2,3) len by (auto simp: nth_list_update)
  then show "unmarked (marks[n := 1]) < unmarked marks"
    unfolding unmarked_def by (intro psubset_card_mono) auto
qed

lemma dfs_finish:
  assumes "dfs_inv g (dst, marks)" "n < num_nodes g" "marks ! n = 1"
      and "\<forall>h \<in> set (in_edges (nodes g ! n)).
             begin_node_id (edges g ! h) < num_nodes g \<and> marks ! begin_node_id (edges g ! h) = 2"
  shows "dfs_inv g (dst @ [n], marks[n := 2])"
proof -
  from assms(1) have len: "length marks = num_nodes g" and d: "distinct dst"
    and set: "set dst = {k. k < num_nodes g \<and> marks ! k = 2}" and pc: "prefix_closed g dst"
    and v: "\<forall>k < num_nodes g. marks ! k \<le> 2"
    by (simp_all add: dfs_inv_def)
  have nd: "n \<notin> set dst" using set assms(3) by simp
  have "prefix_closed g (dst @ [n])"
    unfolding prefix_closed_def
  proof (intro allI impI ballI)
    fix i h assume i: "i < length (dst @ [n])" and h: "h \<in> set (in_edges (nodes g ! ((dst @ [n]) ! i)))"
    show "begin_node_id (edges g ! h) \<in> set (take i (dst @ [n]))"
    proof (cases "i < length dst")
      case True
      with h pc show ?thesis by (simp add: prefix_closed_def nth_append)
    next
      case False
      with i have "i = length dst" by simp
      with h assms(4) set show ?thesis by simp
    qed
  qed
  moreover have "set (dst @ [n]) = {k. k < num_nodes g \<and> marks[n := 2] ! k = 2}"
    using set assms(2) len by (auto simp: nth_list_update)
  moreover have "\<forall>k < num_nodes g. marks[n := 2] ! k \<le> 2"
    using v by (simp add: nth_list_update_total)
  ultimately show ?thesis
    using len d nd unfolding dfs_inv_def by simp
qed

lemma dfs_post_finish:
  assumes "dfs_post (dst, marks[n := 1]) (dst', marks')" "marks ! n = 0" "n < length marks"
  shows "dfs_post (dst, marks) (dst' @ [n], marks'[n := 2])"
  using assms by (auto simp: dfs_post_def nth_list_update split: if_splits)

lemma dfs_unmarked_mono:
  assumes "dfs_inv g s" "dfs_post s s'"
  shows "unmarked (snd s') \<le> unmarked (snd s)"
proof -
  from assms(1) have v: "\<forall>k < length (snd s). snd s ! k \<le> 2" by (simp add: dfs_inv_def)
  have sub: "{k. k < length (snd s') \<and> snd s' ! k = 0} \<subseteq> {k. k < length (snd s) \<and> snd s ! k = 0}"
  proof
    fix k assume "k \<in> {k. k < length (snd s') \<and> snd s' ! k = 0}"
    then have k: "k < length (snd s)" "snd s' ! k = 0" using assms(2) by (simp_all add: dfs_post_def)
    from v k(1) have "snd s ! k = 0 \<or> snd s ! k = 1 \<or> snd s ! k = 2"
      by (metis One_nat_def le_Suc_eq le_zero_eq numeral_2_eq_2)
    with assms(2) k show "k \<in> {k. k < length (snd s) \<and> snd s ! k = 0}"
      by (auto simp: dfs_post_def)
  qed
  show ?thesis unfolding unmarked_def by (rule card_mono) (use sub in auto)
qed

lemma visit_resultI:
  "r = Some (Inl GraphCorruption) \<or> (\<exists>s'. r = Some (Inr s') \<and> Q s') \<Longrightarrow> visit_result Q r"
  by (auto simp: visit_result_def)

lemma visit_resultE:
  assumes "visit_result Q r"
  obtains "r = Some (Inl GraphCorruption)" | s' where "r = Some (Inr s')" "Q s'"
  using assms by (auto simp: visit_result_def split: option.splits sum.splits)

text \<open>With more fuel than unmarked nodes a visit returns; it fails only with the
  assertion on the marks, and otherwise leaves the node permanently marked.\<close>

lemma visit_node_correct:
  assumes wf: "wf_graph g"
  shows "dfs_inv g s \<Longrightarrow> n < num_nodes g \<Longrightarrow> unmarked (snd s) < f \<Longrightarrow>
           visit_result (\<lambda>s'. dfs_inv g s' \<and> dfs_post s s' \<and> snd s' ! n = 2) (visit_node f g n s)"
    and "dfs_inv g s \<Longrightarrow> \<forall>h \<in> set hs. begin_node_id (edges g ! h) < num_nodes g \<Longrightarrow>
           unmarked (snd s) < f \<Longrightarrow>
           visit_result (\<lambda>s'. dfs_inv g s' \<and> dfs_post s s' \<and>
                               (\<forall>h \<in> set hs. snd s' ! begin_node_id (edges g ! h) = 2))
             (visit_in_edges f g hs s)"
  using wf
proof (induction f g n s and f g hs s rule: visit_node_visit_in_edges.induct)
  case (1 g n s)
  then show ?case by simp
next
  case (2 f g n dst marks)
  from "2.prems"(1) have len: "length marks = num_nodes g"
    and v: "\<forall>k < num_nodes g. marks ! k \<le> 2" by (simp_all add: dfs_inv_def)
  from v "2.prems"(2) have cases: "marks ! n = 0 \<or> marks ! n = 1 \<or> marks ! n = 2"
    by (metis One_nat_def le_Suc_eq le_zero_eq numeral_2_eq_2)
  show ?case
  proof (cases "marks ! n = 1")
    case True
    then show ?thesis using "2.prems"(2) len by (simp add: visit_result_def)
  next
    case n1: False
    show ?thesis
    proof (cases "marks ! n = 0")
      case False
      with n1 cases have "marks ! n = 2" by simp
      then show ?thesis
        using "2.prems"(1,2) len by (simp add: visit_result_def dfs_post_refl)
    next
      case True
      note st = dfs_start[OF "2.prems"(1,2) True]
      have edges: "\<forall>h \<in> set (in_edges (nodes g ! n)). begin_node_id (edges g ! h) < num_nodes g"
        using wf_in_edge(3)[OF "2.prems"(4,2)] by blast
      have fuel: "unmarked (snd (dst, marks[n := 1])) < f" using st(2) "2.prems"(3) by simp
      have "visit_result (\<lambda>s'. dfs_inv g s' \<and> dfs_post (dst, marks[n := 1]) s' \<and>
                 (\<forall>h \<in> set (in_edges (nodes g ! n)). snd s' ! begin_node_id (edges g ! h) = 2))
              (visit_in_edges f g (in_edges (nodes g ! n)) (dst, marks[n := 1]))"
        by (rule "2.IH") (use "2.prems" len True st(1) edges fuel in simp_all)
      then show ?thesis
      proof (cases rule: visit_resultE)
        case 1
        then show ?thesis using True "2.prems"(2) len by (simp add: visit_result_def)
      next
        case (2 s')
        obtain dst' marks' where s': "s' = (dst', marks')" by (cases s')
        from 2(2) have inv': "dfs_inv g (dst', marks')"
          and post': "dfs_post (dst, marks[n := 1]) (dst', marks')"
          and fin: "\<forall>h \<in> set (in_edges (nodes g ! n)). marks' ! begin_node_id (edges g ! h) = 2"
          by (simp_all add: s')
        have m1: "marks' ! n = 1"
          using post' "2.prems"(2) len by (simp add: dfs_post_def)
        have len': "length marks' = num_nodes g" using inv' by (simp add: dfs_inv_def)
        have a: "dfs_inv g (dst' @ [n], marks'[n := 2])"
          by (rule dfs_finish[OF inv' "2.prems"(2) m1]) (use edges fin in blast)
        have b: "dfs_post (dst, marks) (dst' @ [n], marks'[n := 2])"
          by (rule dfs_post_finish[OF post' True]) (use "2.prems"(2) len in simp)
        show ?thesis
          using 2(1) True "2.prems"(2) len len' a b by (simp add: visit_result_def s')
      qed
    qed
  qed
next
  case (3 f g s)
  then show ?case by (simp add: visit_result_def dfs_post_refl)
next
  case (4 f g h hs s)
  let ?b = "begin_node_id (edges g ! h)"
  have "visit_result (\<lambda>s'. dfs_inv g s' \<and> dfs_post s s' \<and> snd s' ! ?b = 2) (visit_node f g ?b s)"
    by (rule "4.IH"(1)) (use "4.prems" in simp_all)
  then show ?case
  proof (cases rule: visit_resultE)
    case 1
    then show ?thesis by (simp add: visit_result_def)
  next
    case (2 s1)
    then have inv1: "dfs_inv g s1" and post1: "dfs_post s s1" and b2: "snd s1 ! ?b = 2" by simp_all
    have fuel: "unmarked (snd s1) < f"
      using dfs_unmarked_mono[OF "4.prems"(1) post1] "4.prems"(3) by simp
    have "visit_result (\<lambda>s'. dfs_inv g s' \<and> dfs_post s1 s' \<and>
                               (\<forall>h \<in> set hs. snd s' ! begin_node_id (edges g ! h) = 2))
             (visit_in_edges f g hs s1)"
      by (rule "4.IH"(2)[OF 2(1) refl inv1]) (use "4.prems" fuel in simp_all)
    then show ?thesis
    proof (cases rule: visit_resultE)
      case 1
      then show ?thesis using 2(1) by (simp add: visit_result_def)
    next
      case (2 s2)
      from 2(2) have inv2: "dfs_inv g s2" and post2: "dfs_post s1 s2"
        and hs2: "\<forall>h \<in> set hs. snd s2 ! begin_node_id (edges g ! h) = 2" by simp_all
      have "?b < length (snd s1)" using inv1 "4.prems"(2) by (simp add: dfs_inv_def)
      with post2 b2 have "snd s2 ! ?b = 2" by (simp add: dfs_post_def)
      with inv2 hs2 dfs_post_trans[OF post1 post2] 2(1) \<open>visit_node f g ?b s = Some (Inr s1)\<close>
      show ?thesis by (simp add: visit_result_def)
    qed
  qed
qed


lemma sort_loop_correct:
  assumes "wf_graph g" "dfs_inv g s" "\<forall>k < num_nodes g. snd s ! k \<noteq> 1"
      and "\<forall>i \<in> set js. i < num_nodes g" "num_nodes g < f"
  shows "visit_result (\<lambda>s'. dfs_inv g s' \<and> dfs_post s s' \<and> (\<forall>i \<in> set js. snd s' ! i = 2))
           (sort_loop f g js s)"
  using assms(2-)
proof (induction js arbitrary: s)
  case Nil
  then show ?case by (simp add: visit_result_def dfs_post_refl)
next
  case (Cons i js)
  obtain dst marks where s: "s = (dst, marks)" by (cases s)
  from Cons.prems(1) have len: "length marks = num_nodes g"
    and v: "\<forall>k < num_nodes g. marks ! k \<le> 2" by (simp_all add: dfs_inv_def s)
  have i: "i < num_nodes g" using Cons.prems(3) by simp
  have id: "node_id (nodes g ! i) = i"
    using assms(1) i by (simp add: wf_graph_iff node_ok_def)
  have fuel: "unmarked (snd s) < f"
  proof -
    have "unmarked marks \<le> card {k. k < length marks}"
      unfolding unmarked_def by (rule card_mono) auto
    then show ?thesis using len Cons.prems(4) by (simp add: s)
  qed
  have step: "visit_result (\<lambda>s'. dfs_inv g s' \<and> dfs_post s s' \<and> snd s' ! i = 2)
                (if marks ! i = 0 then visit_node f g i s else Some (Inr s))"
  proof (cases "marks ! i = 0")
    case True
    then show ?thesis using visit_node_correct(1)[OF assms(1) Cons.prems(1) i fuel] by simp
  next
    case False
    from v i have "marks ! i = 0 \<or> marks ! i = 1 \<or> marks ! i = 2"
      by (metis One_nat_def le_Suc_eq le_zero_eq numeral_2_eq_2)
    with False Cons.prems(2) i have "marks ! i = 2" by (auto simp: s)
    with False Cons.prems(1) show ?thesis by (simp add: visit_result_def dfs_post_refl s)
  qed
  from step show ?case
  proof (cases rule: visit_resultE)
    case 1
    then show ?thesis
      by (cases "marks ! i = 0") (simp_all add: s id visit_result_def)
  next
    case (2 s1)
    then have inv1: "dfs_inv g s1" and post1: "dfs_post s s1" and i2: "snd s1 ! i = 2" by simp_all
    have no1: "\<forall>k < num_nodes g. snd s1 ! k \<noteq> 1"
      using post1 Cons.prems(2) len by (simp add: dfs_post_def s)
    have eq: "sort_loop f g (i # js) s = sort_loop f g js s1"
    proof (cases "marks ! i = 0")
      case True
      with 2(1) show ?thesis by (simp add: s id)
    next
      case False
      with 2(1) have "s1 = (dst, marks)" by (simp add: s)
      with False show ?thesis by (simp add: s id)
    qed
    have "visit_result (\<lambda>s'. dfs_inv g s' \<and> dfs_post s1 s' \<and> (\<forall>i \<in> set js. snd s' ! i = 2))
           (sort_loop f g js s1)"
      by (rule Cons.IH[OF inv1 no1]) (use Cons.prems in simp_all)
    then show ?thesis
    proof (cases rule: visit_resultE)
      case 1
      then show ?thesis by (simp add: eq visit_result_def)
    next
      case (2 s2)
      from 2(2) have inv2: "dfs_inv g s2" and post2: "dfs_post s1 s2"
        and js2: "\<forall>i \<in> set js. snd s2 ! i = 2" by simp_all
      have "i < length (snd s1)" using inv1 i by (simp add: dfs_inv_def)
      with post2 i2 have "snd s2 ! i = 2" by (simp add: dfs_post_def)
      with inv2 js2 dfs_post_trans[OF post1 post2] 2(1) show ?thesis
        by (simp add: eq visit_result_def)
    qed
  qed
qed

lemma check_sorted_iff:
  "check_sorted g ns V \<longleftrightarrow>
     (\<forall>i < length ns. \<forall>h \<in> set (in_edges (nodes g ! (ns ! i))).
        begin_node_id (edges g ! h) \<in> V \<union> set (take i ns))"
proof (induction ns arbitrary: V)
  case Nil
  then show ?case by simp
next
  case (Cons n ns)
  have "(\<forall>i < length (n # ns). \<forall>h \<in> set (in_edges (nodes g ! ((n # ns) ! i))).
          begin_node_id (edges g ! h) \<in> V \<union> set (take i (n # ns))) \<longleftrightarrow>
        (\<forall>h \<in> set (in_edges (nodes g ! n)). begin_node_id (edges g ! h) \<in> V) \<and>
        (\<forall>i < length ns. \<forall>h \<in> set (in_edges (nodes g ! (ns ! i))).
          begin_node_id (edges g ! h) \<in> insert n V \<union> set (take i ns))"
    by (simp add: All_less_Suc2) blast
  then show ?case using Cons.IH[of "insert n V"] by (simp add: list_all_iff)
qed

text \<open>The sort of a well-formed graph whose order is stale returns: either an
  assertion fails in the search, or the new order holds every node once, behind its
  predecessors, and passes the self-check.\<close>

lemma topological_sort_correct:
  assumes "wf_graph g" "\<not> is_sorted g"
  shows "(sort_loop (Suc (num_nodes g)) g [0 ..< num_nodes g] ([], replicate (num_nodes g) 0)
            = Some (Inl GraphCorruption) \<and>
          topological_sort g = Some (Inl GraphCorruption)) \<or>
         (\<exists>dst. topological_sort g = Some (Inr (g\<lparr>sorted_nodes_ids := dst, is_sorted := True\<rparr>)) \<and>
            distinct dst \<and> set dst = {0 ..< num_nodes g} \<and> prefix_closed g dst)"
proof -
  let ?s0 = "([], replicate (num_nodes g) 0) :: nat list \<times> nat list"
  have inv0: "dfs_inv g ?s0" by (simp add: dfs_inv_def prefix_closed_def)
  have "visit_result (\<lambda>s'. dfs_inv g s' \<and> dfs_post ?s0 s' \<and> (\<forall>i \<in> set [0 ..< num_nodes g]. snd s' ! i = 2))
           (sort_loop (Suc (num_nodes g)) g [0 ..< num_nodes g] ?s0)"
    by (rule sort_loop_correct[OF assms(1) inv0]) simp_all
  then show ?thesis
  proof (cases rule: visit_resultE)
    case 1
    then show ?thesis using assms(2) by (simp add: topological_sort_def)
  next
    case (2 s')
    obtain dst marks where s': "s' = (dst, marks)" by (cases s')
    from 2(2) have inv: "dfs_inv g (dst, marks)" and all2: "\<forall>i < num_nodes g. marks ! i = 2"
      by (simp_all add: s')
    from inv all2 have d: "distinct dst" and set: "set dst = {0 ..< num_nodes g}"
      and pc: "prefix_closed g dst"
      by (auto simp: dfs_inv_def)
    have len: "length dst = num_nodes g" using d set distinct_card[of dst] by simp
    have chk: "check_sorted (g\<lparr>sorted_nodes_ids := dst\<rparr>) dst {}"
      using pc by (simp add: check_sorted_iff prefix_closed_def)
    have "topological_sort g = Some (Inr (g\<lparr>sorted_nodes_ids := dst, is_sorted := True\<rparr>))"
      using 2(1) assms len chk wf_length[OF assms(1)]
      by (simp add: topological_sort_def s' is_topologically_sorted_def Let_def)
    with d set pc show ?thesis by blast
  qed
qed


lemma linearization_of_sort:
  assumes "wf_graph g" "distinct dst" "set dst = {0 ..< num_nodes g}" "prefix_closed g dst"
  shows "valid_linearization (g\<lparr>sorted_nodes_ids := dst, is_sorted := True\<rparr>)"
proof -
  let ?g' = "g\<lparr>sorted_nodes_ids := dst, is_sorted := True\<rparr>"
  have perm: "sorted_permutation ?g'" using assms(2,3) by (simp add: sorted_permutation_def)
  have len: "length dst = num_nodes g" using assms(2,3) distinct_card[of dst] by simp
  have "node_id_to_rank ?g' ! begin_node_id (edges g ! h) < node_id_to_rank ?g' ! end_node_id (edges g ! h)"
    if h: "h < length (edges g)" for h
  proof -
    from assms(1) h have ok: "edge_ok g h" by (simp add: wf_graph_iff)
    let ?e = "end_node_id (edges g ! h)" and ?b = "begin_node_id (edges g ! h)"
    from ok have e: "?e < num_nodes ?g'" and hin: "h \<in> set (in_edges (nodes g ! ?e))"
      by (simp_all add: edge_ok_def)
    note r = sorted_of_rank[OF perm e]
    let ?i = "node_id_to_rank ?g' ! ?e"
    from r have i: "?i < length dst" "dst ! ?i = ?e" using len by simp_all
    have "h \<in> set (in_edges (nodes g ! (dst ! ?i)))" using hin by (simp only: i(2))
    from assms(4)[unfolded prefix_closed_def, rule_format, OF i(1) this]
    have "?b \<in> set (take ?i dst)" .
    then obtain j where j: "j < ?i" "dst ! j = ?b"
      using i(1) by (auto simp: in_set_conv_nth)
    then have "node_id_to_rank ?g' ! ?b = j"
      using rank_of_sorted[OF perm, of j] i(1) len by simp
    with j(1) show ?thesis by simp
  qed
  then have "edges_forward ?g'" by (simp add: edges_forward_def list_all_length)
  with perm show ?thesis by (simp add: valid_linearization_def)
qed

lemma linearization_acyclic:
  assumes "edges_forward g"
  shows "acyclic (edge_rel g)"
proof -
  have "acyclic ((edge_rel g)\<inverse>)"
  proof (rule acyclicI_order[where f = "\<lambda>n. node_id_to_rank g ! n"])
    fix a b assume "(a, b) \<in> (edge_rel g)\<inverse>"
    then obtain e where "e \<in> set (edges g)" "b = begin_node_id e" "a = end_node_id e"
      by (auto simp: edge_rel_def)
    with assms show "node_id_to_rank g ! b < node_id_to_rank g ! a"
      by (simp add: edges_forward_def list_all_iff)
  qed
  then show ?thesis by simp
qed

lemma in_edge_rel:
  assumes "wf_graph g" "n < num_nodes g" "h \<in> set (in_edges (nodes g ! n))"
  shows "(begin_node_id (edges g ! h), n) \<in> edge_rel g"
  using wf_in_edge(1,2)[OF assms] unfolding edge_rel_def
  by (metis (mono_tags, lifting) image_eqI nth_mem)

text \<open>When the search meets a temporarily marked node, the graph has a cycle: the
  temporarily marked nodes are those whose visit has begun and not ended, and each
  of them can be reached from the node the search is about to visit.\<close>

lemma visit_node_cycle:
  shows "wf_graph g \<Longrightarrow> dfs_inv g s \<Longrightarrow> n < num_nodes g \<Longrightarrow> unmarked (snd s) < f \<Longrightarrow>
           \<forall>x < num_nodes g. snd s ! x = 1 \<longrightarrow> (n, x) \<in> (edge_rel g)\<^sup>+ \<Longrightarrow>
           visit_node f g n s = Some (Inl GraphCorruption) \<Longrightarrow> \<not> acyclic (edge_rel g)"
    and "wf_graph g \<Longrightarrow> dfs_inv g s \<Longrightarrow> unmarked (snd s) < f \<Longrightarrow>
           \<forall>h \<in> set hs. begin_node_id (edges g ! h) < num_nodes g \<and>
                          (begin_node_id (edges g ! h), m) \<in> edge_rel g \<Longrightarrow>
           \<forall>x < num_nodes g. snd s ! x = 1 \<longrightarrow> (m, x) \<in> (edge_rel g)\<^sup>* \<Longrightarrow>
           visit_in_edges f g hs s = Some (Inl GraphCorruption) \<Longrightarrow> \<not> acyclic (edge_rel g)"
proof (induction f g n s and f g hs s arbitrary: and m rule: visit_node_visit_in_edges.induct)
  case (1 g n s)
  then show ?case by simp
next
  case (2 f g n dst marks)
  from "2.prems"(2) have len: "length marks = num_nodes g" by (simp add: dfs_inv_def)
  show ?case
  proof (cases "marks ! n = 1")
    case True
    with "2.prems"(3,5) have "(n, n) \<in> (edge_rel g)\<^sup>+" by simp
    then show ?thesis by (auto simp: acyclic_def)
  next
    case n1: False
    show ?thesis
    proof (cases "marks ! n = 0")
      case False
      with n1 "2.prems"(3,6) len show ?thesis by simp
    next
      case True
      note st = dfs_start[OF "2.prems"(2,3) True]
      from "2.prems"(6) True n1 "2.prems"(3) len
      have r: "visit_in_edges f g (in_edges (nodes g ! n)) (dst, marks[n := 1]) = Some (Inl GraphCorruption)"
        by (auto split: option.splits sum.splits)
      show ?thesis
      proof (rule "2.IH"[of n, OF _ n1 True "2.prems"(1) st(1) _ _ _ r])
        show "\<not> \<not> n < length marks" using "2.prems"(3) len by simp
        show "unmarked (snd (dst, marks[n := 1])) < f" using st(2) "2.prems"(4) by simp
        show "\<forall>h \<in> set (in_edges (nodes g ! n)). begin_node_id (edges g ! h) < num_nodes g \<and>
                (begin_node_id (edges g ! h), n) \<in> edge_rel g"
          using wf_in_edge(3)[OF "2.prems"(1,3)] in_edge_rel[OF "2.prems"(1,3)] by blast
        show "\<forall>x < num_nodes g. snd (dst, marks[n := 1]) ! x = 1 \<longrightarrow> (n, x) \<in> (edge_rel g)\<^sup>*"
          using "2.prems"(5) by (auto simp: nth_list_update_total)
      qed
    qed
  qed
next
  case (3 f g s)
  then show ?case by simp
next
  case (4 f g h hs s)
  let ?b = "begin_node_id (edges g ! h)"
  have b: "?b < num_nodes g" "(?b, m) \<in> edge_rel g" using "4.prems"(4) by simp_all
  have below: "\<forall>x < num_nodes g. snd s ! x = 1 \<longrightarrow> (?b, x) \<in> (edge_rel g)\<^sup>+"
    using b(2) "4.prems"(5) by (meson rtrancl_into_trancl2)
  note c = visit_node_correct(1)[OF "4.prems"(1,2) b(1) "4.prems"(3)]
  from c show ?case
  proof (cases rule: visit_resultE)
    case 1
    from "4.IH"(1)[OF "4.prems"(1,2) b(1) "4.prems"(3) below 1] show ?thesis .
  next
    case (2 s1)
    then have inv1: "dfs_inv g s1" and post1: "dfs_post s s1" by simp_all
    have fuel: "unmarked (snd s1) < f"
      using dfs_unmarked_mono[OF "4.prems"(2) post1] "4.prems"(3) by simp
    have len: "length (snd s) = num_nodes g" using "4.prems"(2) by (simp add: dfs_inv_def)
    have ones: "\<forall>x < num_nodes g. snd s1 ! x = 1 \<longrightarrow> (m, x) \<in> (edge_rel g)\<^sup>*"
      using post1 "4.prems"(5) len by (simp add: dfs_post_def)
    from "4.prems"(6) 2(1) have r: "visit_in_edges f g hs s1 = Some (Inl GraphCorruption)" by simp
    show ?thesis
      by (rule "4.IH"(2)[OF 2(1) refl "4.prems"(1) inv1 fuel _ ones r]) (use "4.prems"(4) in simp)
  qed
qed

lemma sort_loop_cycle:
  assumes "wf_graph g" "dfs_inv g s" "\<forall>k < num_nodes g. snd s ! k \<noteq> 1"
      and "\<forall>i \<in> set js. i < num_nodes g" "num_nodes g < f"
      and "sort_loop f g js s = Some (Inl GraphCorruption)"
  shows "\<not> acyclic (edge_rel g)"
  using assms(2-)
proof (induction js arbitrary: s)
  case Nil
  then show ?case by simp
next
  case (Cons i js)
  obtain dst marks where s: "s = (dst, marks)" by (cases s)
  from Cons.prems(1) have len: "length marks = num_nodes g" by (simp add: dfs_inv_def s)
  have i: "i < num_nodes g" using Cons.prems(3) by simp
  have id: "node_id (nodes g ! i) = i"
    using assms(1) i by (simp add: wf_graph_iff node_ok_def)
  have fuel: "unmarked (snd s) < f"
  proof -
    have "unmarked marks \<le> card {k. k < length marks}"
      unfolding unmarked_def by (rule card_mono) auto
    then show ?thesis using len Cons.prems(4) by (simp add: s)
  qed
  show ?case
  proof (cases "marks ! i = 0")
    case False
    with Cons.prems(5) have "sort_loop f g js s = Some (Inl GraphCorruption)" by (simp add: s id)
    from Cons.IH[OF Cons.prems(1,2) _ Cons.prems(4) this] Cons.prems(3) show ?thesis by simp
  next
    case True
    note c = visit_node_correct(1)[OF assms(1) Cons.prems(1) i fuel]
    from c show ?thesis
    proof (cases rule: visit_resultE)
      case 1
      have "\<forall>x < num_nodes g. snd s ! x = 1 \<longrightarrow> (i, x) \<in> (edge_rel g)\<^sup>+"
        using Cons.prems(2) by simp
      from visit_node_cycle(1)[OF assms(1) Cons.prems(1) i fuel this 1] show ?thesis .
    next
      case (2 s1)
      then have inv1: "dfs_inv g s1" and post1: "dfs_post s s1" by simp_all
      have no1: "\<forall>k < num_nodes g. snd s1 ! k \<noteq> 1"
        using post1 Cons.prems(2) len by (simp add: dfs_post_def s)
      from Cons.prems(5) True 2(1) have "sort_loop f g js s1 = Some (Inl GraphCorruption)"
        by (simp add: s id)
      from Cons.IH[OF inv1 no1 _ Cons.prems(4) this] Cons.prems(3) show ?thesis by simp
    qed
  qed
qed

subsection \<open>C9: \<open>GraphCorruption\<close> and cycles\<close>

lemma edge_rel_cong: "edges g' = edges g \<Longrightarrow> edge_rel g' = edge_rel g"
  by (simp add: edge_rel_def)

text \<open>
  C9: for a well-formed graph whose order is stale, \<open>topological_sort\<close> returns.  It
  signals \<open>GraphCorruption\<close> exactly if the graph has a directed cycle, and then
  already the search signals it, at a temporarily marked node, not the self-check
  that follows the search.  On an acyclic graph it stores an order that is a
  linearization of the graph.
\<close>

theorem C9_graph_corruption_iff_cycle:
  assumes "wf_graph g" and "\<not> is_sorted g"
  shows "(topological_sort g = Some (Inl GraphCorruption) \<longleftrightarrow> \<not> acyclic (edge_rel g)) \<and>
         (sort_loop (Suc (num_nodes g)) g [0 ..< num_nodes g] ([], replicate (num_nodes g) 0)
            = Some (Inl GraphCorruption) \<longleftrightarrow> \<not> acyclic (edge_rel g)) \<and>
         (acyclic (edge_rel g) \<longrightarrow>
            (\<exists>dst. topological_sort g = Some (Inr (g\<lparr>sorted_nodes_ids := dst, is_sorted := True\<rparr>)) \<and>
               valid_linearization (g\<lparr>sorted_nodes_ids := dst, is_sorted := True\<rparr>)))"
proof -
  let ?sl = "sort_loop (Suc (num_nodes g)) g [0 ..< num_nodes g] ([], replicate (num_nodes g) 0)"
  from topological_sort_correct[OF assms]
  consider (bad) "?sl = Some (Inl GraphCorruption)" "topological_sort g = Some (Inl GraphCorruption)"
    | (good) dst where "topological_sort g = Some (Inr (g\<lparr>sorted_nodes_ids := dst, is_sorted := True\<rparr>))"
        "distinct dst" "set dst = {0 ..< num_nodes g}" "prefix_closed g dst"
    by blast
  then show ?thesis
  proof cases
    case bad
    have "\<not> acyclic (edge_rel g)"
      by (rule sort_loop_cycle[OF assms(1) _ _ _ _ bad(1)])
         (simp_all add: dfs_inv_def prefix_closed_def)
    with bad show ?thesis by simp
  next
    case good
    let ?g' = "g\<lparr>sorted_nodes_ids := dst, is_sorted := True\<rparr>"
    have lin: "valid_linearization ?g'"
      using linearization_of_sort[OF assms(1) good(2,3,4)] .
    then have "acyclic (edge_rel ?g')"
      using linearization_acyclic by (simp add: valid_linearization_def)
    then have ac: "acyclic (edge_rel g)" using edge_rel_cong[of ?g' g] by simp
    have "?sl \<noteq> Some (Inl GraphCorruption)"
      using good(1) assms(2) by (auto simp: topological_sort_def)
    moreover have "\<exists>dst. topological_sort g = Some (Inr (g\<lparr>sorted_nodes_ids := dst, is_sorted := True\<rparr>)) \<and>
               valid_linearization (g\<lparr>sorted_nodes_ids := dst, is_sorted := True\<rparr>)"
      using good(1) lin by blast
    ultimately show ?thesis using good(1) ac by simp
  qed
qed

theorem C9_graph_corruption_witness:
  "wf_graph back_edge_graph \<and> \<not> is_sorted back_edge_graph \<and>
   (1, 2) \<in> edge_rel back_edge_graph \<and> (2, 1) \<in> edge_rel back_edge_graph \<and>
   topological_sort back_edge_graph = Some (Inl GraphCorruption) \<and>
   \<not> acyclic (edge_rel back_edge_graph) \<and>
   add_alignment acgt_graph ([2, 1], [0, 1]) ''GC'' [1, 1] = Some (Inl GraphCorruption) \<and>
   wf_graph (acgt_acct_graph\<lparr>is_sorted := False\<rparr>) \<and>
   \<not> is_sorted (acgt_acct_graph\<lparr>is_sorted := False\<rparr>) \<and>
   topological_sort (acgt_acct_graph\<lparr>is_sorted := False\<rparr>) = Some (Inr acgt_acct_graph) \<and>
   acyclic (edge_rel (acgt_acct_graph\<lparr>is_sorted := False\<rparr>))"
proof -
  have 1: "wf_graph back_edge_graph" "\<not> is_sorted back_edge_graph"
    "(1, 2) \<in> edge_rel back_edge_graph" "(2, 1) \<in> edge_rel back_edge_graph"
    "topological_sort back_edge_graph = Some (Inl GraphCorruption)"
    "add_alignment acgt_graph ([2, 1], [0, 1]) ''GC'' [1, 1] = Some (Inl GraphCorruption)"
    by code_simp+
  let ?g = "acgt_acct_graph\<lparr>is_sorted := False\<rparr>"
  have 2: "wf_graph ?g" "\<not> is_sorted ?g" "topological_sort ?g = Some (Inr acgt_acct_graph)"
    by code_simp+
  have 3: "\<not> acyclic (edge_rel back_edge_graph)"
    using C9_graph_corruption_iff_cycle[OF 1(1,2)] 1(5) by simp
  have 4: "acyclic (edge_rel ?g)"
    using C9_graph_corruption_iff_cycle[OF 2(1,2)] 2(3) by auto
  from 1 2 3 4 show ?thesis by simp
qed

subsection \<open>C4: the cached order is a linearization\<close>

lemma add_edge_is_sorted: "add_edge g b e w = Inr g' \<Longrightarrow> is_sorted g' = is_sorted g"
  by (cases "find_out_edge (edges g) (out_edges (nodes g ! b)) e")
     (auto simp: add_edge_def Let_def split: if_splits)

lemma add_sequence_loop_is_sorted:
  "add_sequence_loop g s ws js = Inr g' \<Longrightarrow> is_sorted g' = is_sorted g"
proof (induction js arbitrary: g)
  case Nil
  then show ?case by simp
next
  case (Cons i js)
  from Cons.prems obtain g2 where
    e: "add_edge (snd (add_node g (s ! i) 0)) (num_nodes g - 1) (num_nodes g) (float_add (ws ! (i - 1)) (ws ! i)) = Inr g2"
    and r: "add_sequence_loop g2 s ws js = Inr g'"
    by (auto simp: add_node_def split: if_splits sum.splits)
  from Cons.IH[OF r] add_edge_is_sorted[OF e] show ?case by (simp add: add_node_def)
qed

lemma add_sequence_is_sorted:
  "add_sequence g s ws b e = Inr (r, g') \<Longrightarrow> is_sorted g' = is_sorted g"
proof (cases "b = e")
  case True
  then show "add_sequence g s ws b e = Inr (r, g') \<Longrightarrow> is_sorted g' = is_sorted g"
    by (simp add: add_sequence_def)
next
  case False
  assume "add_sequence g s ws b e = Inr (r, g')"
  with False have "add_sequence_loop (snd (add_node g (s ! b) 0)) s ws [b + 1 ..< e] = Inr g'"
    by (auto simp: add_sequence_def add_node_def split: if_splits sum.splits)
  from add_sequence_loop_is_sorted[OF this] show "is_sorted g' = is_sorted g"
    by (simp add: add_node_def)
qed

text \<open>Both mutating operations end with a sort of a well-formed graph whose order
  is marked stale.\<close>

lemma createGraph_via_sort:
  assumes "createGraph s ws = Some (Inr g)"
  shows "\<exists>g0. wf_graph g0 \<and> \<not> is_sorted g0 \<and> topological_sort g0 = Some (Inr g)"
proof -
  let ?g0 = "empty_graph\<lparr>alphabet := set s\<rparr>"
  have 0: "wf_graph ?g0" "aligned_closed ?g0"
    using wf_empty_graph wf_graph_cong[of ?g0 empty_graph]
    by (simp_all add: aligned_closed_def empty_graph_def)
  from assms obtain r g1 where
    a: "add_sequence ?g0 s ws 0 (length s) = Inr (r, g1)"
    and t: "topological_sort (g1\<lparr>sequences_start_nodes_ids := sequences_start_nodes_ids g1 @ [r],
                num_sequences := Suc (num_sequences g1)\<rparr>) = Some (Inr g)"
    by (auto simp: createGraph_def split: if_splits sum.splits)
  let ?g2 = "g1\<lparr>sequences_start_nodes_ids := sequences_start_nodes_ids g1 @ [r],
                num_sequences := Suc (num_sequences g1)\<rparr>"
  from add_sequence_inv[OF 0 a] have "wf_graph g1" by simp
  then have "wf_graph ?g2" using wf_graph_cong[of ?g2 g1] by simp
  moreover have "\<not> is_sorted ?g2"
    using add_sequence_is_sorted[OF a] by (simp add: empty_graph_def)
  ultimately show ?thesis using t by blast
qed

lemma add_alignment_via_sort:
  assumes "wf_graph g" "aligned_closed g" "add_alignment g alignment s ws = Some (Inr g')"
  shows "\<exists>g0. wf_graph g0 \<and> \<not> is_sorted g0 \<and> topological_sort g0 = Some (Inr g')"
proof -
  let ?g0 = "g\<lparr>alphabet := alphabet g \<union> set s\<rparr>"
  have 0: "wf_graph ?g0" "aligned_closed ?g0"
    using assms(1,2) wf_graph_cong[of ?g0 g] aligned_closed_cong[of ?g0 g] by simp_all
  show ?thesis
  proof (cases "snd alignment = []")
    case True
    with assms(3) obtain r g1 where
      a: "add_sequence ?g0 s ws 0 (length s) = Inr (r, g1)"
      and t: "topological_sort (g1\<lparr>num_sequences := Suc (num_sequences g1),
                sequences_start_nodes_ids := sequences_start_nodes_ids g1 @ [r],
                is_sorted := False\<rparr>) = Some (Inr g')"
      by (auto simp: add_alignment_def Let_def split: if_splits sum.splits)
    let ?g2 = "g1\<lparr>num_sequences := Suc (num_sequences g1),
                sequences_start_nodes_ids := sequences_start_nodes_ids g1 @ [r],
                is_sorted := False\<rparr>"
    from add_sequence_inv[OF 0 a] have "wf_graph g1" by simp
    then have "wf_graph ?g2" using wf_graph_cong[of ?g2 g1] by simp
    with t show ?thesis by (intro exI[of _ ?g2]) simp
  next
    case False
    define valid where "valid = map to_uint32 (filter (\<lambda>x. x \<noteq> - 1) (snd alignment))"
    from assms(3) False obtain r1 g1 r2 g2 st g3 st3 g4 start where
      a1: "add_sequence ?g0 s ws 0 (hd valid) = Inr (r1, g1)"
      and a2: "add_sequence g1 s ws (to_uint32 (int (last valid) + 1)) (length s) = Inr (r2, g2)"
      and lp: "alignment_loop g2 s ws (zip (fst alignment) (snd alignment)) st = Inr (g3, st3)"
      and ae: "(if r2 \<noteq> - 1 then add_edge g3 (nat (fst (snd st3))) (nat r2)
                  (float_add (snd (snd st3)) (ws ! (last valid + 1))) else Inr g3) = Inr g4"
      and t: "topological_sort (g4\<lparr>num_sequences := Suc (num_sequences g4),
                sequences_start_nodes_ids := sequences_start_nodes_ids g4 @ [start],
                is_sorted := False\<rparr>) = Some (Inr g')"
      unfolding add_alignment_def Let_def valid_def[symmetric]
      by (auto split: if_splits sum.splits prod.splits)
    let ?g5 = "g4\<lparr>num_sequences := Suc (num_sequences g4),
                sequences_start_nodes_ids := sequences_start_nodes_ids g4 @ [start],
                is_sorted := False\<rparr>"
    from add_sequence_inv[OF 0 a1] have 1: "wf_graph g1" "aligned_closed g1" by simp_all
    from add_sequence_inv[OF 1 a2] have 2: "wf_graph g2" "aligned_closed g2" by simp_all
    from alignment_loop_inv[OF 2 lp] have 3: "wf_graph g3" "aligned_closed g3" by simp_all
    have 4: "wf_graph g4"
    proof (cases "r2 \<noteq> - 1")
      case True
      with ae have "add_edge g3 (nat (fst (snd st3))) (nat r2)
                  (float_add (snd (snd st3)) (ws ! (last valid + 1))) = Inr g4" by simp
      from add_edge_inv[OF 3 this] show ?thesis by simp
    next
      case False
      with ae 3 show ?thesis by simp
    qed
    then have "wf_graph ?g5" using wf_graph_cong[of ?g5 g4] by simp
    with t show ?thesis by (intro exI[of _ ?g5]) simp
  qed
qed

lemma sorted_result_linearization:
  assumes "wf_graph g0" "\<not> is_sorted g0" "topological_sort g0 = Some (Inr g)"
  shows "valid_linearization g"
proof -
  from topological_sort_correct[OF assms(1,2)] assms(3) obtain dst where
    "g = g0\<lparr>sorted_nodes_ids := dst, is_sorted := True\<rparr>"
    "distinct dst" "set dst = {0 ..< num_nodes g0}" "prefix_closed g0 dst"
    by auto
  with linearization_of_sort[OF assms(1)] show ?thesis by simp
qed

lemma valid_linearization_cong:
  "sorted_nodes_ids g' = sorted_nodes_ids g \<Longrightarrow> num_nodes g' = num_nodes g \<Longrightarrow>
   edges g' = edges g \<Longrightarrow> valid_linearization g' = valid_linearization g"
  by (simp add: valid_linearization_def sorted_permutation_def edges_forward_def node_id_to_rank_def)

lemma reachable_linearization: "reachable g \<Longrightarrow> valid_linearization g"
proof (induction rule: reachable.induct)
  case (reachable_create s ws g)
  from createGraph_via_sort[OF this] sorted_result_linearization show ?case by blast
next
  case (reachable_align g alignment s ws g')
  from reachable_inv[OF reachable_align(1)] add_alignment_via_sort[OF _ _ reachable_align(2)]
    sorted_result_linearization
  show ?case by blast
next
  case (reachable_consensus g c g')
  from generate_consensus_fields[OF reachable_consensus(2)] obtain c' where
    "g' = g\<lparr>consensus := c'\<rparr>" by blast
  with reachable_consensus(3) valid_linearization_cong[of g' g] show ?case by simp
next
  case (reachable_msa g b rows g')
  from generate_msa_fields[OF reachable_msa(2)]
  have "sorted_nodes_ids g' = sorted_nodes_ids g" "edges g' = edges g" "num_nodes g' = num_nodes g"
    by auto
  with reachable_msa(3) valid_linearization_cong[of g' g] show ?case by simp
qed

lemma reachable_acgt_acct: "reachable acgt_acct_graph"
proof -
  have c: "createGraph ''ACGT'' [1, 1, 1, 1] = Some (Inr acgt_graph)"
    by code_simp
  have a: "add_alignment acgt_graph ([0, 1, 2, 3], [0, 1, 2, 3]) ''ACCT'' [1, 1, 1, 1]
     = Some (Inr acgt_acct_graph)"
    by code_simp
  show ?thesis using reachable_align[OF reachable_create[OF c] a] .
qed

text \<open>
  C4: in every graph that the interface can build, that is after every operation
  that returns, the cached order contains every node exactly once, and for every
  edge the begin node stands in the order before the end node.
\<close>

theorem C4_cached_order_is_linearization:
  assumes "reachable g"
  shows "distinct (sorted_nodes_ids g) \<and> set (sorted_nodes_ids g) = {0 ..< num_nodes g} \<and>
         length (sorted_nodes_ids g) = num_nodes g \<and>
         (\<forall>e \<in> set (edges g). \<exists>i j. i < j \<and> j < num_nodes g \<and>
              sorted_nodes_ids g ! i = begin_node_id e \<and> sorted_nodes_ids g ! j = end_node_id e)"
proof -
  from reachable_linearization[OF assms] have perm: "sorted_permutation g" and fw: "edges_forward g"
    by (simp_all add: valid_linearization_def)
  from reachable_inv[OF assms] have wf: "wf_graph g" by simp
  have "\<exists>i j. i < j \<and> j < num_nodes g \<and>
              sorted_nodes_ids g ! i = begin_node_id e \<and> sorted_nodes_ids g ! j = end_node_id e"
    if e: "e \<in> set (edges g)" for e
  proof -
    from e obtain h where h: "h < length (edges g)" "edges g ! h = e" by (auto simp: in_set_conv_nth)
    with wf have "edge_ok g h" by (simp add: wf_graph_iff)
    with h have b: "begin_node_id e < num_nodes g" and en: "end_node_id e < num_nodes g"
      by (simp_all add: edge_ok_def)
    from fw e have lt: "node_id_to_rank g ! begin_node_id e < node_id_to_rank g ! end_node_id e"
      by (simp add: edges_forward_def list_all_iff)
    from sorted_of_rank[OF perm b] sorted_of_rank[OF perm en] lt show ?thesis by blast
  qed
  with perm sorted_permutation_length[OF perm] show ?thesis
    by (simp add: sorted_permutation_def)
qed

theorem C4_cached_order_witness:
  "reachable acgt_acct_graph \<and> sorted_nodes_ids acgt_acct_graph = [0, 1, 2, 4, 3] \<and>
   distinct (sorted_nodes_ids acgt_acct_graph) \<and>
   set (sorted_nodes_ids acgt_acct_graph) = {0 ..< num_nodes acgt_acct_graph}"
proof -
  have "sorted_nodes_ids acgt_acct_graph = [0, 1, 2, 4, 3]" by code_simp
  with C4_cached_order_is_linearization[OF reachable_acgt_acct] reachable_acgt_acct
  show ?thesis by simp
qed

subsection \<open>Node types and aligned groups\<close>

lemma groups_ok_iff:
  "groups_ok g \<longleftrightarrow>
     (\<forall>a < num_nodes g.
        node_type (nodes g ! a) \<le> 1 \<and> distinct (aligned_nodes_ids (nodes g ! a)) \<and>
        (node_type (nodes g ! a) = 0 \<longrightarrow> (\<forall>b \<in> aligned_with g a. node_type (nodes g ! b) = 1)) \<and>
        (node_type (nodes g ! a) = 1 \<longrightarrow> (\<exists>p \<in> aligned_with g a. node_type (nodes g ! p) = 0)))"
  unfolding groups_ok_def aligned_with_def list_all_iff list_ex_iff set_upt by (rule ball_upt)

lemma groups_ok_cong:
  "nodes g' = nodes g \<Longrightarrow> num_nodes g' = num_nodes g \<Longrightarrow> groups_ok g' = groups_ok g"
  by (simp add: groups_ok_def)

lemma groups_ok_add_node:
  assumes "groups_ok g" "aligned_closed g" "length (nodes g) = num_nodes g"
  shows "groups_ok (snd (add_node g c 0))"
proof -
  let ?g' = "snd (add_node g c 0)"
  have nn: "num_nodes ?g' = Suc (num_nodes g)" by (simp add: add_node_def)
  have old: "nodes ?g' ! a = nodes g ! a" if "a < num_nodes g" for a
    using that assms(3) by (simp add: add_node_def nth_append)
  have new: "nodes ?g' ! num_nodes g = createNode (num_nodes g) c 0"
    using assms(3) by (simp add: add_node_def nth_append)
  have lt: "b < num_nodes g" if "a < num_nodes g" "b \<in> aligned_with g a" for a b
    using assms(2) that unfolding aligned_closed_iff by blast
  show ?thesis
    unfolding groups_ok_iff nn
  proof (intro allI impI)
    fix a assume "a < Suc (num_nodes g)"
    then consider "a < num_nodes g" | "a = num_nodes g" by linarith
    then show "node_type (nodes ?g' ! a) \<le> 1 \<and> distinct (aligned_nodes_ids (nodes ?g' ! a)) \<and>
        (node_type (nodes ?g' ! a) = 0 \<longrightarrow> (\<forall>b \<in> aligned_with ?g' a. node_type (nodes ?g' ! b) = 1)) \<and>
        (node_type (nodes ?g' ! a) = 1 \<longrightarrow> (\<exists>p \<in> aligned_with ?g' a. node_type (nodes ?g' ! p) = 0))"
    proof cases
      case 1
      from assms(1) 1 have *: "node_type (nodes g ! a) \<le> 1" "distinct (aligned_nodes_ids (nodes g ! a))"
        "node_type (nodes g ! a) = 0 \<longrightarrow> (\<forall>b \<in> aligned_with g a. node_type (nodes g ! b) = 1)"
        "node_type (nodes g ! a) = 1 \<longrightarrow> (\<exists>p \<in> aligned_with g a. node_type (nodes g ! p) = 0)"
        unfolding groups_ok_iff by blast+
      have al: "aligned_with ?g' a = aligned_with g a" using old[OF 1] by (simp add: aligned_with_def)
      show ?thesis
        unfolding al old[OF 1] using * lt[OF 1] old by auto
    next
      case 2
      then show ?thesis using new by (simp add: createNode_def aligned_with_def)
    qed
  qed
qed

lemma groups_ok_add_edge:
  assumes "groups_ok g" "length (nodes g) = num_nodes g" "aligned_closed g" "add_edge g b e w = Inr g'"
  shows "groups_ok g'"
proof -
  from add_edge_aligned[OF assms(4,2)]
  have nn: "num_nodes g' = num_nodes g"
    and same: "\<And>n. n < num_nodes g \<Longrightarrow> aligned_nodes_ids (nodes g' ! n) = aligned_nodes_ids (nodes g ! n) \<and>
                   node_type (nodes g' ! n) = node_type (nodes g ! n)"
    by simp_all
  have lt: "b < num_nodes g" if "a < num_nodes g" "b \<in> aligned_with g a" for a b
    using assms(3) that unfolding aligned_closed_iff by blast
  show ?thesis
    unfolding groups_ok_iff nn
  proof (intro allI impI)
    fix a assume a: "a < num_nodes g"
    from assms(1) a have *: "node_type (nodes g ! a) \<le> 1" "distinct (aligned_nodes_ids (nodes g ! a))"
        "node_type (nodes g ! a) = 0 \<longrightarrow> (\<forall>b \<in> aligned_with g a. node_type (nodes g ! b) = 1)"
        "node_type (nodes g ! a) = 1 \<longrightarrow> (\<exists>p \<in> aligned_with g a. node_type (nodes g ! p) = 0)"
        unfolding groups_ok_iff by blast+
    have al: "aligned_with g' a = aligned_with g a" using same[OF a] by (simp add: aligned_with_def)
    show "node_type (nodes g' ! a) \<le> 1 \<and> distinct (aligned_nodes_ids (nodes g' ! a)) \<and>
        (node_type (nodes g' ! a) = 0 \<longrightarrow> (\<forall>b \<in> aligned_with g' a. node_type (nodes g' ! b) = 1)) \<and>
        (node_type (nodes g' ! a) = 1 \<longrightarrow> (\<exists>p \<in> aligned_with g' a. node_type (nodes g' ! p) = 0))"
      unfolding al using * same[OF a] same lt[OF a] by auto
  qed
qed

lemma link_aligned_length: "length (link_aligned ns new aids) = length ns"
  by (induction aids arbitrary: ns) (simp_all add: Let_def)

lemma link_aligned_lists:
  assumes "new < length ns" "\<forall>a \<in> set aids. a < length ns \<and> a \<noteq> new" "distinct aids"
  shows "\<forall>k < length ns.
            node_type (link_aligned ns new aids ! k) = node_type (ns ! k) \<and>
            aligned_nodes_ids (link_aligned ns new aids ! k) =
              aligned_nodes_ids (ns ! k) @
              (if k = new then aids else if k \<in> set aids then [new] else [])"
  using assms
proof (induction aids arbitrary: ns)
  case Nil
  then show ?case by simp
next
  case (Cons a aids)
  let ?ns1 = "ns[new := add_aligned_node_id (ns ! new) a]"
  let ?ns2 = "?ns1[a := add_aligned_node_id (?ns1 ! a) new]"
  have a: "a < length ns" "a \<noteq> new" "a \<notin> set aids" using Cons.prems by simp_all
  have step: "\<forall>k < length ns. node_type (?ns2 ! k) = node_type (ns ! k) \<and>
      aligned_nodes_ids (?ns2 ! k) = aligned_nodes_ids (ns ! k) @
        (if k = new then [a] else if k = a then [new] else [])"
    using a Cons.prems(1) by (auto simp: nth_list_update add_aligned_node_id_def)
  have len: "length ?ns2 = length ns" by simp
  have ih: "\<forall>k < length ?ns2.
            node_type (link_aligned ?ns2 new aids ! k) = node_type (?ns2 ! k) \<and>
            aligned_nodes_ids (link_aligned ?ns2 new aids ! k) =
              aligned_nodes_ids (?ns2 ! k) @
              (if k = new then aids else if k \<in> set aids then [new] else [])"
    by (rule Cons.IH) (use Cons.prems in auto)
  show ?case
  proof (intro allI impI)
    fix k assume k: "k < length ns"
    from ih k len have 1: "node_type (link_aligned ?ns2 new aids ! k) = node_type (?ns2 ! k)"
      "aligned_nodes_ids (link_aligned ?ns2 new aids ! k) =
              aligned_nodes_ids (?ns2 ! k) @
              (if k = new then aids else if k \<in> set aids then [new] else [])"
      by simp_all
    from step k have 2: "node_type (?ns2 ! k) = node_type (ns ! k)"
      "aligned_nodes_ids (?ns2 ! k) = aligned_nodes_ids (ns ! k) @
        (if k = new then [a] else if k = a then [new] else [])"
      by simp_all
    have l: "link_aligned ns new (a # aids) = link_aligned ?ns2 new aids" by (simp add: Let_def)
    show "node_type (link_aligned ns new (a # aids) ! k) = node_type (ns ! k) \<and>
          aligned_nodes_ids (link_aligned ns new (a # aids) ! k) =
              aligned_nodes_ids (ns ! k) @
              (if k = new then a # aids else if k \<in> set (a # aids) then [new] else [])"
      unfolding l 1 2 using a by auto
  qed
qed

lemma resolve_node_groups:
  assumes "wf_graph g" "aligned_closed g" "groups_ok g" "resolve_node g nid c = Inr (new, g')"
  shows "groups_ok g'"
proof -
  have len: "length (nodes g) = num_nodes g" using assms(1) by (rule wf_length)
  show ?thesis
  proof (cases "nid = - 1")
    case True
    with assms(4) have "g' = snd (add_node g c 0)"
      by (auto simp: resolve_node_def add_node_def)
    then show ?thesis using groups_ok_add_node[OF assms(3,2) len] by simp
  next
    case False
    with assms(4) have nid: "0 \<le> nid" "nat nid < num_nodes g"
      using len by (auto simp: resolve_node_def split: if_splits)
    define k where "k = nat nid"
    have k: "k < num_nodes g" and nk: "nid = int k" using nid by (simp_all add: k_def)
    let ?A = "aligned_nodes_ids (nodes g ! k)"
    let ?N = "num_nodes g"
    show ?thesis
    proof (cases "letter (nodes g ! k) = c \<or> find_aligned_letter (nodes g) ?A c \<noteq> - 1")
      case True
      with assms(4) k len have "g' = g"
        unfolding nk by (auto simp: resolve_node_def Let_def split: if_splits)
      with assms(3) show ?thesis by simp
    next
      case F: False
      from assms(3) k have gk: "node_type (nodes g ! k) \<le> 1" "distinct ?A"
        "node_type (nodes g ! k) = 0 \<longrightarrow> (\<forall>b \<in> aligned_with g k. node_type (nodes g ! b) = 1)"
        "node_type (nodes g ! k) = 1 \<longrightarrow> (\<exists>p \<in> aligned_with g k. node_type (nodes g ! p) = 0)"
        unfolding groups_ok_iff by blast+
      have A: "\<forall>a \<in> set ?A. a < ?N \<and> a \<noteq> k"
        using assms(2) k unfolding aligned_closed_iff aligned_with_def by blast
      let ?n0 = "nodes g @ [createNode ?N c 1]"
      let ?ns1 = "link_aligned ?n0 ?N ?A"
      let ?ns2 = "?ns1[?N := add_aligned_node_id (?ns1 ! ?N) k]"
      let ?ns3 = "?ns2[k := add_aligned_node_id (?ns2 ! k) ?N]"
      have "resolve_node g (int k) c = Inr (?N, g\<lparr>nodes := ?ns3, num_nodes := Suc ?N\<rparr>)"
        using F k len by (simp add: resolve_node_def Let_def add_node_def)
      with assms(4) have "Inr (new, g') = (Inr (?N, g\<lparr>nodes := ?ns3, num_nodes := Suc ?N\<rparr>) :: error + nat \<times> graph)"
        unfolding nk by (rule trans[OF sym])
      then have g': "g' = g\<lparr>nodes := ?ns3, num_nodes := Suc ?N\<rparr>"
        by (simp only: sum.inject prod.inject)
      have l1: "\<forall>j < length ?n0.
            node_type (?ns1 ! j) = node_type (?n0 ! j) \<and>
            aligned_nodes_ids (?ns1 ! j) =
              aligned_nodes_ids (?n0 ! j) @
              (if j = ?N then ?A else if j \<in> set ?A then [?N] else [])"
        by (rule link_aligned_lists) (use A len gk(2) in auto)
      have len1: "length ?ns1 = Suc ?N"
        using len by (simp add: link_aligned_length)
      have old: "?n0 ! j = nodes g ! j" if "j < ?N" for j using that len by (simp add: nth_append)
      have new: "?n0 ! ?N = createNode ?N c 1" using len by (simp add: nth_append)
      have p_old: "node_type (?ns3 ! j) = node_type (nodes g ! j) \<and>
           aligned_nodes_ids (?ns3 ! j) = aligned_nodes_ids (nodes g ! j) @
              (if j = k \<or> j \<in> set ?A then [?N] else [])"
        if j: "j < ?N" for j
      proof -
        from l1 j len old[OF j] have 1: "node_type (?ns1 ! j) = node_type (nodes g ! j)"
          "aligned_nodes_ids (?ns1 ! j) = aligned_nodes_ids (nodes g ! j) @
              (if j \<in> set ?A then [?N] else [])"
          by simp_all
        have 3: "node_type (?ns3 ! j) = node_type (?ns1 ! j)"
          "aligned_nodes_ids (?ns3 ! j) = aligned_nodes_ids (?ns1 ! j) @ (if j = k then [?N] else [])"
          using j len1 k by (auto simp: nth_list_update add_aligned_node_id_def)
        show ?thesis unfolding 3 1 using A by auto
      qed
      have p_new: "node_type (?ns3 ! ?N) = 1 \<and> aligned_nodes_ids (?ns3 ! ?N) = ?A @ [k]"
      proof -
        from l1 len new have 1: "node_type (?ns1 ! ?N) = 1" "aligned_nodes_ids (?ns1 ! ?N) = ?A"
          by (simp_all add: createNode_def)
        have 3: "node_type (?ns3 ! ?N) = node_type (?ns1 ! ?N)"
          "aligned_nodes_ids (?ns3 ! ?N) = aligned_nodes_ids (?ns1 ! ?N) @ [k]"
          using len1 k by (auto simp: nth_list_update add_aligned_node_id_def)
        show ?thesis unfolding 3 1 by simp
      qed
      have n3: "nodes g' = ?ns3" "num_nodes g' = Suc ?N" unfolding g' by simp_all
      have lt: "b < ?N" if "a < ?N" "b \<in> aligned_with g a" for a b
        using assms(2) that unfolding aligned_closed_iff by blast
      show ?thesis
        unfolding groups_ok_iff n3
      proof (intro allI impI)
        fix a assume "a < Suc ?N"
        then consider "a < ?N" | "a = ?N" by linarith
        then show "node_type (?ns3 ! a) \<le> 1 \<and> distinct (aligned_nodes_ids (?ns3 ! a)) \<and>
          (node_type (?ns3 ! a) = 0 \<longrightarrow> (\<forall>b \<in> aligned_with g' a. node_type (?ns3 ! b) = 1)) \<and>
          (node_type (?ns3 ! a) = 1 \<longrightarrow> (\<exists>p \<in> aligned_with g' a. node_type (?ns3 ! p) = 0))"
        proof cases
          case 1
          from assms(3) 1 have *: "node_type (nodes g ! a) \<le> 1" "distinct (aligned_nodes_ids (nodes g ! a))"
            "node_type (nodes g ! a) = 0 \<longrightarrow> (\<forall>b \<in> aligned_with g a. node_type (nodes g ! b) = 1)"
            "node_type (nodes g ! a) = 1 \<longrightarrow> (\<exists>p \<in> aligned_with g a. node_type (nodes g ! p) = 0)"
            unfolding groups_ok_iff by blast+
          have fresh: "?N \<notin> aligned_with g a" using lt[OF 1] by blast
          have al: "aligned_with g' a = aligned_with g a \<union> (if a = k \<or> a \<in> set ?A then {?N} else {})"
            unfolding aligned_with_def n3 using p_old[OF 1] by auto
          have t: "node_type (?ns3 ! a) = node_type (nodes g ! a)" using p_old[OF 1] by simp
          have d: "distinct (aligned_nodes_ids (?ns3 ! a))"
            using p_old[OF 1] *(2) fresh by (auto simp: aligned_with_def)
          have tb: "node_type (?ns3 ! b) = node_type (nodes g ! b)" if "b \<in> aligned_with g a" for b
            using p_old[OF lt[OF 1 that]] by simp
          have c0: "node_type (nodes g ! a) = 0 \<longrightarrow> (\<forall>b \<in> aligned_with g' a. node_type (?ns3 ! b) = 1)"
            unfolding al using *(3) tb p_new by auto
          have c1: "node_type (nodes g ! a) = 1 \<longrightarrow> (\<exists>p \<in> aligned_with g' a. node_type (?ns3 ! p) = 0)"
            unfolding al using *(4) tb by auto
          show ?thesis unfolding t using *(1) d c0 c1 by blast
        next
          case 2
          have al: "aligned_with g' ?N = insert k (aligned_with g k)"
            unfolding aligned_with_def n3 using p_new by auto
          have d: "distinct (aligned_nodes_ids (?ns3 ! ?N))"
            using p_new gk(2) A by auto
          have "\<exists>p \<in> insert k (aligned_with g k). node_type (?ns3 ! p) = 0"
          proof (cases "node_type (nodes g ! k) = 0")
            case True
            then show ?thesis using p_old[OF k] by auto
          next
            case False
            with gk(1,4) obtain p where p: "p \<in> aligned_with g k" "node_type (nodes g ! p) = 0"
              by (metis le_neq_implies_less less_one)
            then have "node_type (?ns3 ! p) = 0" using p_old[OF lt[OF k p(1)]] by simp
            with p(1) show ?thesis by blast
          qed
          then show ?thesis unfolding 2 al using p_new d by simp
        qed
      qed
    qed
  qed
qed

lemma add_sequence_loop_groups:
  assumes "wf_graph g" "aligned_closed g" "groups_ok g" "add_sequence_loop g s ws js = Inr g'"
  shows "groups_ok g'"
  using assms
proof (induction js arbitrary: g)
  case Nil
  then show ?case by simp
next
  case (Cons i js)
  let ?g1 = "snd (add_node g (s ! i) 0)"
  note n = add_node_inv[OF Cons.prems(1,2), of "s ! i" 0]
  from Cons.prems(4) obtain g2 where
    e: "add_edge ?g1 (num_nodes g - 1) (num_nodes g) (float_add (ws ! (i - 1)) (ws ! i)) = Inr g2"
    and r: "add_sequence_loop g2 s ws js = Inr g'"
    by (auto simp: add_node_def split: if_splits sum.splits)
  from n have n1: "wf_graph ?g1" and n2: "aligned_closed ?g1" by simp_all
  have n3: "groups_ok ?g1"
    by (rule groups_ok_add_node[OF Cons.prems(3,2) wf_length[OF Cons.prems(1)]])
  note a = add_edge_inv[OF n1 n2 e]
  from a have a1: "wf_graph g2" and a2: "aligned_closed g2" by simp_all
  have a3: "groups_ok g2" by (rule groups_ok_add_edge[OF n3 wf_length[OF n1] n2 e])
  from Cons.IH[OF a1 a2 a3 r] show ?case .
qed

lemma add_sequence_groups:
  assumes "wf_graph g" "aligned_closed g" "groups_ok g" "add_sequence g s ws b e = Inr (r, g')"
  shows "groups_ok g'"
proof (cases "b = e")
  case True
  with assms show ?thesis by (simp add: add_sequence_def)
next
  case False
  let ?g1 = "snd (add_node g (s ! b) 0)"
  note n = add_node_inv[OF assms(1,2), of "s ! b" 0]
  from assms(4) False have l: "add_sequence_loop ?g1 s ws [b + 1 ..< e] = Inr g'"
    by (auto simp: add_sequence_def add_node_def split: if_splits sum.splits)
  from n have n1: "wf_graph ?g1" and n2: "aligned_closed ?g1" by simp_all
  have n3: "groups_ok ?g1"
    by (rule groups_ok_add_node[OF assms(3,2) wf_length[OF assms(1)]])
  from add_sequence_loop_groups[OF n1 n2 n3 l] show ?thesis .
qed

lemma alignment_loop_groups:
  assumes "wf_graph g" "aligned_closed g" "groups_ok g"
      and "alignment_loop g s ws cols st = Inr (g', st')"
  shows "groups_ok g'"
  using assms
proof (induction cols arbitrary: g st)
  case Nil
  then show ?case by simp
next
  case (Cons col cols)
  obtain nid sid where col: "col = (nid, sid)" by (cases col)
  obtain start head prev where st: "st = (start, head, prev)" by (cases st)
  show ?case
  proof (cases "sid = - 1")
    case True
    with Cons.prems(4) have "alignment_loop g s ws cols st = Inr (g', st')"
      by (simp add: col st)
    from Cons.IH[OF Cons.prems(1,2,3) this] show ?thesis .
  next
    case False
    with Cons.prems(4) obtain new g1 g2 st2 where
      rn: "resolve_node g nid (s ! nat sid) = Inr (new, g1)"
      and ae: "(if head \<noteq> - 1 then add_edge g1 (nat head) new (float_add prev (ws ! nat sid)) else Inr g1) = Inr g2"
      and rest: "alignment_loop g2 s ws cols st2 = Inr (g', st')"
      by (auto simp: col st split: if_splits sum.splits)
    note r = resolve_node_inv[OF Cons.prems(1,2) rn]
    then have r1: "wf_graph g1" and r2: "aligned_closed g1" by simp_all
    have r3: "groups_ok g1" by (rule resolve_node_groups[OF Cons.prems(1,2,3) rn])
    have "wf_graph g2 \<and> aligned_closed g2 \<and> groups_ok g2"
    proof (cases "head \<noteq> - 1")
      case True
      with ae have e: "add_edge g1 (nat head) new (float_add prev (ws ! nat sid)) = Inr g2" by simp
      from add_edge_inv[OF r1 r2 e] groups_ok_add_edge[OF r3 wf_length[OF r1] r2 e]
      show ?thesis by simp
    next
      case False
      with ae r1 r2 r3 show ?thesis by simp
    qed
    with Cons.IH[OF _ _ _ rest] show ?thesis by simp
  qed
qed

lemma createGraph_groups:
  assumes "createGraph s ws = Some (Inr g)"
  shows "groups_ok g"
proof -
  let ?g0 = "empty_graph\<lparr>alphabet := set s\<rparr>"
  have 0: "wf_graph ?g0" "aligned_closed ?g0" "groups_ok ?g0"
    using wf_empty_graph wf_graph_cong[of ?g0 empty_graph]
    by (simp_all add: aligned_closed_def groups_ok_def empty_graph_def)
  from assms obtain r g1 where
    a: "add_sequence ?g0 s ws 0 (length s) = Inr (r, g1)"
    and t: "topological_sort (g1\<lparr>sequences_start_nodes_ids := sequences_start_nodes_ids g1 @ [r],
                num_sequences := Suc (num_sequences g1)\<rparr>) = Some (Inr g)"
    by (auto simp: createGraph_def split: if_splits sum.splits)
  let ?g2 = "g1\<lparr>sequences_start_nodes_ids := sequences_start_nodes_ids g1 @ [r],
                num_sequences := Suc (num_sequences g1)\<rparr>"
  from add_sequence_groups[OF 0 a] have "groups_ok g1" .
  then have "groups_ok ?g2" using groups_ok_cong[of ?g2 g1] by simp
  with topological_sort_fields[OF t] groups_ok_cong[of g ?g2] show ?thesis by simp
qed

lemma add_alignment_groups:
  assumes "wf_graph g" "aligned_closed g" "groups_ok g"
      and "add_alignment g alignment s ws = Some (Inr g')"
  shows "groups_ok g'"
proof -
  let ?g0 = "g\<lparr>alphabet := alphabet g \<union> set s\<rparr>"
  have 0: "wf_graph ?g0" "aligned_closed ?g0" "groups_ok ?g0"
    using assms(1,2,3) wf_graph_cong[of ?g0 g] aligned_closed_cong[of ?g0 g]
      groups_ok_cong[of ?g0 g] by simp_all
  show ?thesis
  proof (cases "snd alignment = []")
    case True
    with assms(4) obtain r g1 where
      a: "add_sequence ?g0 s ws 0 (length s) = Inr (r, g1)"
      and t: "topological_sort (g1\<lparr>num_sequences := Suc (num_sequences g1),
                sequences_start_nodes_ids := sequences_start_nodes_ids g1 @ [r],
                is_sorted := False\<rparr>) = Some (Inr g')"
      by (auto simp: add_alignment_def Let_def split: if_splits sum.splits)
    let ?g2 = "g1\<lparr>num_sequences := Suc (num_sequences g1),
                sequences_start_nodes_ids := sequences_start_nodes_ids g1 @ [r],
                is_sorted := False\<rparr>"
    from add_sequence_groups[OF 0 a] have "groups_ok g1" .
    then have "groups_ok ?g2" using groups_ok_cong[of ?g2 g1] by simp
    with topological_sort_fields[OF t] groups_ok_cong[of g' ?g2] show ?thesis by simp
  next
    case False
    define valid where "valid = map to_uint32 (filter (\<lambda>x. x \<noteq> - 1) (snd alignment))"
    from assms(4) False obtain r1 g1 r2 g2 st g3 st3 g4 start where
      a1: "add_sequence ?g0 s ws 0 (hd valid) = Inr (r1, g1)"
      and a2: "add_sequence g1 s ws (to_uint32 (int (last valid) + 1)) (length s) = Inr (r2, g2)"
      and lp: "alignment_loop g2 s ws (zip (fst alignment) (snd alignment)) st = Inr (g3, st3)"
      and ae: "(if r2 \<noteq> - 1 then add_edge g3 (nat (fst (snd st3))) (nat r2)
                  (float_add (snd (snd st3)) (ws ! (last valid + 1))) else Inr g3) = Inr g4"
      and t: "topological_sort (g4\<lparr>num_sequences := Suc (num_sequences g4),
                sequences_start_nodes_ids := sequences_start_nodes_ids g4 @ [start],
                is_sorted := False\<rparr>) = Some (Inr g')"
      unfolding add_alignment_def Let_def valid_def[symmetric]
      by (auto split: if_splits sum.splits prod.splits)
    let ?g5 = "g4\<lparr>num_sequences := Suc (num_sequences g4),
                sequences_start_nodes_ids := sequences_start_nodes_ids g4 @ [start],
                is_sorted := False\<rparr>"
    from add_sequence_inv[OF 0(1,2) a1] add_sequence_groups[OF 0 a1]
    have 1: "wf_graph g1" "aligned_closed g1" "groups_ok g1" by simp_all
    from add_sequence_inv[OF 1(1,2) a2] add_sequence_groups[OF 1 a2]
    have 2: "wf_graph g2" "aligned_closed g2" "groups_ok g2" by simp_all
    from alignment_loop_inv[OF 2(1,2) lp] alignment_loop_groups[OF 2 lp]
    have 3: "wf_graph g3" "aligned_closed g3" "groups_ok g3" by simp_all
    have 4: "groups_ok g4"
    proof (cases "r2 \<noteq> - 1")
      case True
      with ae have "add_edge g3 (nat (fst (snd st3))) (nat r2)
                  (float_add (snd (snd st3)) (ws ! (last valid + 1))) = Inr g4" by simp
      from groups_ok_add_edge[OF 3(3) wf_length[OF 3(1)] 3(2) this] show ?thesis .
    next
      case False
      with ae 3 show ?thesis by simp
    qed
    then have "groups_ok ?g5" using groups_ok_cong[of ?g5 g4] by simp
    with topological_sort_fields[OF t] groups_ok_cong[of g' ?g5] show ?thesis by simp
  qed
qed

lemma reachable_groups: "reachable g \<Longrightarrow> groups_ok g"
proof (induction rule: reachable.induct)
  case (reachable_create s ws g)
  then show ?case by (rule createGraph_groups)
next
  case (reachable_align g alignment s ws g')
  from reachable_inv[OF reachable_align(1)] have "wf_graph g" "aligned_closed g" by simp_all
  from add_alignment_groups[OF this reachable_align(3,2)] show ?case .
next
  case (reachable_consensus g c g')
  from generate_consensus_fields[OF reachable_consensus(2)] obtain c' where
    "g' = g\<lparr>consensus := c'\<rparr>" by blast
  with reachable_consensus(3) groups_ok_cong[of g' g] show ?case by simp
next
  case (reachable_msa g b rows g')
  from generate_msa_fields[OF reachable_msa(2)]
  have "nodes g' = nodes g" "num_nodes g' = num_nodes g" by auto
  with reachable_msa(3) groups_ok_cong[of g' g] show ?case by simp
qed

subsection \<open>The rigorous search\<close>

lemma emit_aligned_eq:
  "emit_aligned aids (dst, marks) = (dst @ aids, fold (\<lambda>a m. m[a := 2]) aids marks)"
  by (induction aids arbitrary: dst marks) simp_all

lemma fold_update_length: "length (fold (\<lambda>a m. m[a := v]) aids m) = length m"
  by (induction aids arbitrary: m) simp_all

lemma fold_update_nth:
  "fold (\<lambda>a m. m[a := v]) aids m ! k = (if k \<in> set aids \<and> k < length m then v else m ! k)"
proof (induction aids arbitrary: m)
  case Nil
  then show ?case by simp
next
  case (Cons a aids)
  show ?case by (auto simp: Cons.IH nth_list_update_total)
qed

lemma rig_post_refl: "rig_post g s s"
  by (simp add: rig_post_def)

lemma rig_post_trans: "rig_post g s s1 \<Longrightarrow> rig_post g s1 s2 \<Longrightarrow> rig_post g s s2"
  by (simp add: rig_post_def)

lemma blocks_of_member:
  assumes "blocks_of g ps dst" "a \<in> set dst"
  shows "\<exists>p \<in> set ps. p < num_nodes g \<and> node_type (nodes g ! p) = 0 \<and>
           (a = p \<or> a \<in> aligned_with g p)"
  using assms by (auto simp: blocks_of_def block_def aligned_with_def list_all_iff)

lemma blocks_of_head:
  assumes "blocks_of g ps dst" "p \<in> set ps"
  shows "p \<in> set dst"
  using assms by (auto simp: blocks_of_def block_def)

lemma blocks_of_snoc:
  assumes "blocks_of g ps dst" "n < num_nodes g" "node_type (nodes g ! n) = 0"
  shows "blocks_of g (ps @ [n]) (dst @ n # aligned_nodes_ids (nodes g ! n))"
  using assms by (simp add: blocks_of_def block_def)

text \<open>A node aligned with a primary node stands in the block of that node only.\<close>

lemma aligned_one_primary:
  assumes "aligned_closed g" "groups_ok g"
      and "n < num_nodes g" "node_type (nodes g ! n) = 0" "a \<in> aligned_with g n"
      and "p < num_nodes g" "node_type (nodes g ! p) = 0" "a = p \<or> a \<in> aligned_with g p"
  shows "p = n"
proof (rule ccontr)
  assume ne: "p \<noteq> n"
  from assms(2,3,4,5) have ta: "node_type (nodes g ! a) = 1"
    unfolding groups_ok_iff by blast
  with assms(7,8) have ap: "a \<in> aligned_with g p" by auto
  from assms(1,6) ap have pa: "p \<in> aligned_with g a"
    unfolding aligned_closed_iff by blast
  from assms(1,3,5) have "\<forall>c \<in> aligned_with g a. c \<noteq> n \<longrightarrow> c \<in> aligned_with g n"
    unfolding aligned_closed_iff by blast
  with pa ne have "p \<in> aligned_with g n" by blast
  with assms(2,3,4) have "node_type (nodes g ! p) = 1"
    unfolding groups_ok_iff by blast
  with assms(7) show False by simp
qed

lemma rig_start:
  assumes "rig_inv g (dst, marks)" "n < num_nodes g" "marks ! n = 0"
  shows "rig_inv g (dst, marks[n := 1])" "rig_post g (dst, marks[n := 1]) s' \<Longrightarrow> rig_post g (dst, marks) s'"
proof -
  from assms(1) have len: "length marks = num_nodes g" by (simp add: rig_inv_def)
  have 1: "{k. k < num_nodes g \<and> marks[n := 1] ! k = 2} = {k. k < num_nodes g \<and> marks ! k = 2}"
    using assms(2,3) len by (auto simp: nth_list_update)
  have 2: "\<forall>k < num_nodes g. marks[n := 1] ! k \<le> 2"
    using assms(1) len by (auto simp: rig_inv_def nth_list_update_total)
  from assms(1) 2 show "rig_inv g (dst, marks[n := 1])"
    unfolding rig_inv_def fst_conv snd_conv 1 by simp
  show "rig_post g (dst, marks) s'" if p: "rig_post g (dst, marks[n := 1]) s'"
    unfolding rig_post_def
  proof (intro conjI allI impI)
    show "length (snd s') = length (snd (dst, marks))" using p by (simp add: rig_post_def)
  next
    fix k assume k: "k < length (snd (dst, marks))" and "snd (dst, marks) ! k \<noteq> 0"
    then have "marks[n := 1] ! k \<noteq> 0" by (simp add: nth_list_update_total)
    with p k show "snd s' ! k \<noteq> 0" by (simp add: rig_post_def)
  next
    fix k assume k: "k < length (snd (dst, marks))" and "snd (dst, marks) ! k = 2"
    then have "marks[n := 1] ! k = 2" using assms(3) by (auto simp: nth_list_update_total)
    with p k show "snd s' ! k = 2" by (simp add: rig_post_def)
  next
    fix k assume k: "k < length (snd (dst, marks))"
      and "snd (dst, marks) ! k = 1 \<and> node_type (nodes g ! k) = 0"
    then have "marks[n := 1] ! k = 1 \<and> node_type (nodes g ! k) = 0"
      by (auto simp: nth_list_update_total)
    with p k show "snd s' ! k = 1" by (simp add: rig_post_def)
  qed
qed

lemma rig_emit:
  assumes cl: "aligned_closed g" and gr: "groups_ok g"
      and inv: "rig_inv g (dst, marks)" and n: "n < num_nodes g"
      and t: "node_type (nodes g ! n) = 0" and m1: "marks ! n = 1"
  shows "rig_inv g (emit_aligned (aligned_nodes_ids (nodes g ! n)) (dst @ [n], marks[n := 2]))"
    and "length (snd (emit_aligned (aligned_nodes_ids (nodes g ! n)) (dst @ [n], marks[n := 2])))
           = num_nodes g"
    and "\<forall>k < num_nodes g.
           snd (emit_aligned (aligned_nodes_ids (nodes g ! n)) (dst @ [n], marks[n := 2])) ! k =
             (if k = n \<or> k \<in> aligned_with g n then 2 else marks ! k)"
proof -
  let ?A = "aligned_nodes_ids (nodes g ! n)"
  let ?m = "fold (\<lambda>a m. m[a := 2]) ?A (marks[n := 2])"
  from inv obtain ps where len: "length marks = num_nodes g" and d: "distinct dst"
    and le: "\<forall>k < num_nodes g. marks ! k \<le> 2"
    and s: "set dst = {k. k < num_nodes g \<and> marks ! k = 2}" and b: "blocks_of g ps dst"
    by (auto simp: rig_inv_def)
  have m: "marks ! n \<noteq> 2" using m1 by simp
  have A: "\<forall>a \<in> set ?A. a < num_nodes g \<and> a \<noteq> n"
    using cl n unfolding aligned_closed_iff aligned_with_def by blast
  have dA: "distinct ?A" using gr n unfolding groups_ok_iff by blast
  have nth: "?m ! k = (if k = n \<or> k \<in> set ?A then 2 else marks ! k)" if "k < num_nodes g" for k
    using that len by (auto simp: fold_update_nth nth_list_update)
  have fresh: "a \<notin> set dst" if a: "a \<in> set ?A" for a
  proof
    assume "a \<in> set dst"
    from blocks_of_member[OF b this] obtain p where
      p: "p \<in> set ps" "p < num_nodes g" "node_type (nodes g ! p) = 0" "a = p \<or> a \<in> aligned_with g p"
      by blast
    have "p = n"
      by (rule aligned_one_primary[OF cl gr n t _ p(2,3,4)]) (use a in \<open>simp add: aligned_with_def\<close>)
    with blocks_of_head[OF b p(1)] s m show False by simp
  qed
  have nd: "n \<notin> set dst" using s m by simp
  have e: "emit_aligned ?A (dst @ [n], marks[n := 2]) = (dst @ n # ?A, ?m)"
    by (simp add: emit_aligned_eq)
  have 1: "distinct (dst @ n # ?A)" using d dA A nd fresh by auto
  have 2: "set (dst @ n # ?A) = {k. k < num_nodes g \<and> ?m ! k = 2}"
    using s n A nth by auto
  have 3: "blocks_of g (ps @ [n]) (dst @ n # ?A)" by (rule blocks_of_snoc[OF b n t])
  show "rig_inv g (emit_aligned ?A (dst @ [n], marks[n := 2]))"
    unfolding e rig_inv_def using 1 2 3 len le nth by (auto simp: fold_update_length)
  have tA: "\<forall>a \<in> set ?A. node_type (nodes g ! a) = 1"
    using gr n t unfolding groups_ok_iff aligned_with_def by blast
  show "length (snd (emit_aligned ?A (dst @ [n], marks[n := 2]))) = num_nodes g"
    unfolding e using len by (simp add: fold_update_length)
  show "\<forall>k < num_nodes g. snd (emit_aligned ?A (dst @ [n], marks[n := 2])) ! k =
             (if k = n \<or> k \<in> aligned_with g n then 2 else marks ! k)"
    unfolding e aligned_with_def using nth by simp
qed

lemma rig_visit_correct:
  assumes "aligned_closed g" "groups_ok g"
  shows "rig_inv g s \<Longrightarrow> visit_node_rigorously f g n s = Some (Inr s') \<Longrightarrow>
           rig_inv g s' \<and> rig_post g s s' \<and> n < num_nodes g \<and> snd s' ! n \<noteq> 0 \<and>
           (node_type (nodes g ! n) = 0 \<longrightarrow> snd s' ! n = 2)"
    and "rig_inv g s \<Longrightarrow> visit_in_edges_rigorously f g hs s = Some (Inr s') \<Longrightarrow>
           rig_inv g s' \<and> rig_post g s s'"
    and "rig_inv g s \<Longrightarrow> visit_aligned_rigorously f g aids s = Some (Inr s') \<Longrightarrow>
           rig_inv g s' \<and> rig_post g s s'"
  using assms
proof (induction f g n s and f g hs s and f g aids s arbitrary: s' and s' and s'
       rule: visit_node_rigorously_visit_in_edges_rigorously_visit_aligned_rigorously.induct)
  case (1 g n s)
  then show ?case by simp
next
  case (2 f g n dst marks)
  from "2.prems"(1) have len: "length marks = num_nodes g" by (simp add: rig_inv_def)
  from "2.prems"(2) have n: "n < num_nodes g" and n1: "marks ! n \<noteq> 1"
    using len by (auto split: if_splits)
  show ?case
  proof (cases "marks ! n = 0")
    case False
    with "2.prems"(2) n n1 len have s': "s' = (dst, marks)" by simp
    have "marks ! n = 2"
      using "2.prems"(1) n n1 False by (auto simp: rig_inv_def le_Suc_eq numeral_2_eq_2)
    then show ?thesis using "2.prems"(1) n False by (simp add: s' rig_post_refl)
  next
    case True
    note st = rig_start[OF "2.prems"(1) n True]
    from "2.prems"(2) True n len obtain s1 where
      v1: "visit_in_edges_rigorously f g (in_edges (nodes g ! n)) (dst, marks[n := 1]) = Some (Inr s1)"
      by (auto split: option.splits sum.splits)
    have i1: "rig_inv g s1 \<and> rig_post g (dst, marks[n := 1]) s1"
      by (rule "2.IH"(1)[OF _ _ _ st(1) v1]) (use n n1 True len "2.prems" in simp_all)
    from i1 have inv1: "rig_inv g s1" and post1: "rig_post g (dst, marks[n := 1]) s1" by simp_all
    have m1: "snd s1 ! n \<noteq> 0" using post1 n len by (simp add: rig_post_def)
    show ?thesis
    proof (cases "node_type (nodes g ! n) = 0")
      case False
      with "2.prems"(2) True n len v1 have s': "s' = s1" by simp
      show ?thesis unfolding s' using inv1 st(2)[OF post1] n m1 False by simp
    next
      case t: True
      with "2.prems"(2) True n len v1 obtain dst2 marks2 where
        v2: "visit_aligned_rigorously f g (aligned_nodes_ids (nodes g ! n)) s1 = Some (Inr (dst2, marks2))"
        and s': "s' = emit_aligned (aligned_nodes_ids (nodes g ! n)) (dst2 @ [n], marks2[n := 2])"
        by (auto split: option.splits sum.splits)
      have i2: "rig_inv g (dst2, marks2) \<and> rig_post g s1 (dst2, marks2)"
        by (rule "2.IH"(2)[OF _ _ _ v1 refl t inv1 v2]) (use n n1 True len "2.prems" in simp_all)
      then have inv2: "rig_inv g (dst2, marks2)" and post2: "rig_post g s1 (dst2, marks2)" by simp_all
      have m2: "marks2 ! n = 1"
        using post1 post2 n len t by (simp add: rig_post_def)
      note e = rig_emit[OF "2.prems"(3,4) inv2 n t m2]
      have tA: "\<forall>a \<in> aligned_with g n. node_type (nodes g ! a) = 1"
        using "2.prems"(4) n t unfolding groups_ok_iff by blast
      have p12: "rig_post g (dst, marks[n := 1]) (dst2, marks2)"
        by (rule rig_post_trans[OF post1 post2])
      have "rig_post g (dst, marks) s'"
        unfolding rig_post_def
      proof (intro conjI allI impI)
        show "length (snd s') = length (snd (dst, marks))"
          unfolding s' using e(2) len by simp
      next
        fix k assume k: "k < length (snd (dst, marks))"
        then have k': "k < num_nodes g" using len by simp
        from e(3) k' have nth: "snd s' ! k = (if k = n \<or> k \<in> aligned_with g n then 2 else marks2 ! k)"
          unfolding s' by simp
        from p12 k have *: "marks[n := 1] ! k \<noteq> 0 \<longrightarrow> marks2 ! k \<noteq> 0"
          "marks[n := 1] ! k = 2 \<longrightarrow> marks2 ! k = 2"
          "marks[n := 1] ! k = 1 \<and> node_type (nodes g ! k) = 0 \<longrightarrow> marks2 ! k = 1"
          by (simp_all add: rig_post_def)
        have up: "k \<noteq> n \<Longrightarrow> marks[n := 1] ! k = marks ! k" by simp
        show "snd (dst, marks) ! k \<noteq> 0 \<Longrightarrow> snd s' ! k \<noteq> 0"
          unfolding nth using * up by auto
        show "snd (dst, marks) ! k = 2 \<Longrightarrow> snd s' ! k = 2"
          unfolding nth using * up by auto
        show "snd (dst, marks) ! k = 1 \<and> node_type (nodes g ! k) = 0 \<Longrightarrow> snd s' ! k = 1"
          unfolding nth using * up tA True by auto
      qed
      moreover have "snd s' ! n = 2" using e(3) n unfolding s' by simp
      ultimately show ?thesis using e(1) n unfolding s' by simp
    qed
  qed
next
  case (3 f g s)
  then show ?case by (simp add: rig_post_refl)
next
  case (4 f g h hs s)
  from "4.prems"(2) obtain s1 where
    v1: "visit_node_rigorously f g (begin_node_id (edges g ! h)) s = Some (Inr s1)"
    and v2: "visit_in_edges_rigorously f g hs s1 = Some (Inr s')"
    by (auto split: option.splits sum.splits)
  from "4.IH"(1)[OF "4.prems"(1) v1 "4.prems"(3,4)]
  have 1: "rig_inv g s1" "rig_post g s s1" by simp_all
  from "4.IH"(2)[OF v1 refl 1(1) v2 "4.prems"(3,4)] 1(2) show ?case
    using rig_post_trans by blast
next
  case (5 f g s)
  then show ?case by (simp add: rig_post_refl)
next
  case (6 f g aid aids s)
  from "6.prems"(2) obtain s1 where
    v1: "visit_node_rigorously f g aid s = Some (Inr s1)"
    and v2: "visit_aligned_rigorously f g aids s1 = Some (Inr s')"
    by (auto split: option.splits sum.splits)
  from "6.IH"(1)[OF "6.prems"(1) v1 "6.prems"(3,4)]
  have 1: "rig_inv g s1" "rig_post g s s1" by simp_all
  from "6.IH"(2)[OF v1 refl 1(1) v2 "6.prems"(3,4)] 1(2) show ?case
    using rig_post_trans by blast
qed

lemma rigorous_sort_loop_correct:
  assumes "aligned_closed g" "groups_ok g"
  shows "rig_inv g s \<Longrightarrow> rigorous_sort_loop f g ns s = Some (Inr s') \<Longrightarrow>
           rig_inv g s' \<and> rig_post g s s' \<and>
           (\<forall>n \<in> set ns. n < num_nodes g \<and> (node_type (nodes g ! n) = 0 \<longrightarrow> snd s' ! n = 2))"
proof (induction ns arbitrary: s)
  case Nil
  then show ?case by (simp add: rig_post_refl)
next
  case (Cons n ns)
  from Cons.prems(2) obtain s1 where
    v1: "visit_node_rigorously f g n s = Some (Inr s1)"
    and v2: "rigorous_sort_loop f g ns s1 = Some (Inr s')"
    by (auto split: option.splits sum.splits)
  from rig_visit_correct(1)[OF assms Cons.prems(1) v1]
  have 1: "rig_inv g s1" "rig_post g s s1" "n < num_nodes g"
    "node_type (nodes g ! n) = 0 \<longrightarrow> snd s1 ! n = 2" by simp_all
  from Cons.IH[OF 1(1) v2]
  have 2: "rig_inv g s'" "rig_post g s1 s'"
    "\<forall>n \<in> set ns. n < num_nodes g \<and> (node_type (nodes g ! n) = 0 \<longrightarrow> snd s' ! n = 2)"
    by simp_all
  have len: "length (snd s1) = num_nodes g" using 1(1) by (simp add: rig_inv_def)
  have "node_type (nodes g ! n) = 0 \<longrightarrow> snd s' ! n = 2"
    using 1(3,4) 2(2) len by (simp add: rig_post_def)
  with 1 2 rig_post_trans[OF 1(2) 2(2)] show ?case by simp
qed

text \<open>The order of a rigorous sort that returns: the blocks of the primary nodes,
  every node of the graph once.\<close>

lemma rigorous_sort_blocks:
  assumes cl: "aligned_closed g" and gr: "groups_ok g" and sp: "sorted_permutation g"
      and rs: "rigorous_sort g = Some (Inr order)"
  shows "\<exists>ps. blocks_of g ps order \<and> distinct order \<and> set order = {0 ..< num_nodes g}"
proof -
  let ?N = "num_nodes g"
  from rs obtain marks where
    l: "rigorous_sort_loop (Suc ?N) g (sorted_nodes_ids g) ([], replicate ?N 0) = Some (Inr (order, marks))"
    by (auto simp: rigorous_sort_def split: option.splits sum.splits)
  have "blocks_of g [] []" by (simp add: blocks_of_def)
  then have i0: "rig_inv g ([], replicate ?N 0)"
    unfolding rig_inv_def by auto
  from rigorous_sort_loop_correct[OF cl gr i0 l]
  have inv: "rig_inv g (order, marks)"
    and fin: "\<forall>n \<in> set (sorted_nodes_ids g). node_type (nodes g ! n) = 0 \<longrightarrow> marks ! n = 2"
    by simp_all
  from inv obtain ps where d: "distinct order"
    and s: "set order = {k. k < ?N \<and> marks ! k = 2}" and b: "blocks_of g ps order"
    by (auto simp: rig_inv_def)
  have prim: "p \<in> set order" if "p < ?N" "node_type (nodes g ! p) = 0" for p
  proof -
    from that(1) sp have "p \<in> set (sorted_nodes_ids g)" by (simp add: sorted_permutation_def)
    with fin that s show ?thesis by simp
  qed
  have "k \<in> set order" if k: "k < ?N" for k
  proof (cases "node_type (nodes g ! k) = 0")
    case True
    with k show ?thesis by (rule prim)
  next
    case False
    with gr k obtain p where p: "p \<in> aligned_with g k" "node_type (nodes g ! p) = 0"
      unfolding groups_ok_iff by (metis le_neq_implies_less less_one)
    from cl k p(1) have pk: "p < ?N" "k \<in> aligned_with g p"
      unfolding aligned_closed_iff by blast+
    from prim[OF pk(1) p(2)] have "p \<in> set order" .
    from blocks_of_member[OF b this] obtain q where
      q: "q \<in> set ps" "q < ?N" "node_type (nodes g ! q) = 0" "p = q \<or> p \<in> aligned_with g q"
      by blast
    have "p = q"
    proof (rule ccontr)
      assume "p \<noteq> q"
      with q(4) have "p \<in> aligned_with g q" by simp
      with gr q(2,3) have "node_type (nodes g ! p) = 1" unfolding groups_ok_iff by blast
      with p(2) show False by simp
    qed
    with q(1) b pk(2) show ?thesis
      by (auto simp: blocks_of_def block_def aligned_with_def)
  qed
  with s have "set order = {0 ..< ?N}" by auto
  with b d show ?thesis by blast
qed

text \<open>The column assignment on a list of blocks.\<close>

lemma assign_msa_ids_blocks:
  assumes "blocks_of g ps dst" "distinct dst"
  shows "\<exists>msa'. assign_msa_ids g dst (msa, c) = Inr (msa', c + length ps) \<and>
           length msa' = length msa \<and>
           (\<forall>i < length ps. \<forall>k \<in> set (block g (ps ! i)). k < length msa \<longrightarrow> msa' ! k = int (c + i)) \<and>
           (\<forall>k. k \<notin> set dst \<longrightarrow> msa' ! k = msa ! k)"
  using assms
proof (induction ps arbitrary: dst msa c)
  case Nil
  then show ?case by (simp add: blocks_of_def)
next
  case (Cons p ps)
  let ?A = "aligned_nodes_ids (nodes g ! p)"
  define rest where "rest = concat (map (block g) ps)"
  from Cons.prems(1) have dst: "dst = p # ?A @ rest" and t: "node_type (nodes g ! p) = 0"
    and b: "blocks_of g ps rest"
    by (simp_all add: blocks_of_def block_def rest_def)
  from Cons.prems(2) have d: "distinct rest" and disj: "\<forall>k \<in> set (p # ?A). k \<notin> set rest"
    unfolding dst by auto
  let ?m1 = "fold (\<lambda>a m. m[a := int c]) (p # ?A) msa"
  have step: "assign_msa_ids g dst (msa, c) = assign_msa_ids g rest (?m1, Suc c)"
    unfolding dst using t by simp
  from Cons.IH[OF b d, of ?m1 "Suc c"] obtain msa' where
    r: "assign_msa_ids g rest (?m1, Suc c) = Inr (msa', Suc c + length ps)"
    and l: "length msa' = length ?m1"
    and i: "\<forall>i < length ps. \<forall>k \<in> set (block g (ps ! i)). k < length ?m1 \<longrightarrow> msa' ! k = int (Suc c + i)"
    and o: "\<forall>k. k \<notin> set rest \<longrightarrow> msa' ! k = ?m1 ! k"
    by blast
  have l1: "length ?m1 = length msa" by (rule fold_update_length)
  have n1: "?m1 ! k = (if k \<in> set (p # ?A) \<and> k < length msa then int c else msa ! k)" for k
    by (rule fold_update_nth)
  have "\<forall>i < length (p # ps). \<forall>k \<in> set (block g ((p # ps) ! i)). k < length msa \<longrightarrow>
          msa' ! k = int (c + i)"
  proof (intro allI impI ballI)
    fix j k assume j: "j < length (p # ps)" and k: "k \<in> set (block g ((p # ps) ! j))"
      and kl: "k < length msa"
    show "msa' ! k = int (c + j)"
    proof (cases j)
      case 0
      with k have kp: "k \<in> set (p # ?A)" by (simp add: block_def)
      with disj o have "msa' ! k = ?m1 ! k" by blast
      with kp kl n1[of k] 0 show ?thesis by simp
    next
      case (Suc j')
      with j k i kl l1 show ?thesis by simp
    qed
  qed
  moreover have "\<forall>k. k \<notin> set dst \<longrightarrow> msa' ! k = msa ! k"
    unfolding dst using o n1 by auto
  ultimately show ?case
    unfolding step r using l l1 by simp
qed

subsection \<open>C3: the rigorous order and the columns\<close>

lemma reachable_acgt_cc: "reachable acgt_cc_graph"
proof -
  have c: "createGraph ''ACGT'' [1, 1, 1, 1] = Some (Inr acgt_graph)"
    by code_simp
  have a: "add_alignment acgt_graph ([2, 1], [0, 1]) ''CC'' [1, 1] = Some (Inr acgt_cc_graph)"
    by code_simp
  show ?thesis using reachable_align[OF reachable_create[OF c] a] .
qed

lemma reachable_gt_cat_tgt: "reachable gt_cat_tgt_graph"
proof -
  let ?g0 = "the_graph (createGraph_uniform ''GT'' 1)"
  let ?g1 = "the_graph (add_alignment_uniform ?g0 ([- 1, 0, 1], [0, 1, 2]) ''CAT'' 1)"
  have c: "createGraph ''GT'' [1, 1] = Some (Inr ?g0)"
    by code_simp
  have a: "add_alignment ?g0 ([- 1, 0, 1], [0, 1, 2]) ''CAT'' [1, 1, 1] = Some (Inr ?g1)"
    by code_simp
  have b: "add_alignment ?g1 ([2, 3, 1], [0, 1, 2]) ''TGT'' [1, 1, 1] =
             Some (Inr gt_cat_tgt_graph)"
    by code_simp
  show ?thesis using reachable_align[OF reachable_align[OF reachable_create[OF c] a] b] .
qed

text \<open>
  When the rigorous sort at the start of \<open>generate_msa\<close> returns an order, the order
  has the shape that the search aims at: it holds every node of the graph exactly
  once, every primary node is followed immediately by the nodes aligned with it, in
  the order of its list, and the column assignment that follows returns a table in
  which every node has a column and any two aligned nodes have the same column.
\<close>

lemma rigorous_order_contiguous:
  assumes "reachable g" and "rigorous_sort g = Some (Inr order)"
  shows "distinct order \<and> set order = {0 ..< num_nodes g} \<and>
         (\<forall>p < num_nodes g. node_type (nodes g ! p) = 0 \<longrightarrow>
            (\<exists>i. i + length (aligned_nodes_ids (nodes g ! p)) < length order \<and> order ! i = p \<and>
                 take (length (aligned_nodes_ids (nodes g ! p))) (drop (Suc i) order)
                   = aligned_nodes_ids (nodes g ! p))) \<and>
         (\<exists>msa c. msa_node_ids_of g order = Inr (msa, c) \<and> length msa = num_nodes g \<and>
            (\<forall>a < num_nodes g. 0 \<le> msa ! a \<and> msa ! a < int c \<and>
               (\<forall>b \<in> aligned_with g a. msa ! b = msa ! a)))"
proof -
  let ?N = "num_nodes g"
  from reachable_inv[OF assms(1)] have cl: "aligned_closed g" by simp
  note gr = reachable_groups[OF assms(1)]
  from reachable_linearization[OF assms(1)] have sp: "sorted_permutation g"
    by (simp add: valid_linearization_def)
  from rigorous_sort_blocks[OF cl gr sp assms(2)] obtain ps where
    b: "blocks_of g ps order" and d: "distinct order" and s: "set order = {0 ..< ?N}"
    by blast
  have len: "length order = ?N" using distinct_card[OF d] s by simp
  have head: "p \<in> set ps" if p: "p < ?N" "node_type (nodes g ! p) = 0" for p
  proof -
    from p(1) s have "p \<in> set order" by simp
    from blocks_of_member[OF b this] obtain q where
      q: "q \<in> set ps" "q < ?N" "node_type (nodes g ! q) = 0" "p = q \<or> p \<in> aligned_with g q"
      by blast
    have "p = q"
    proof (rule ccontr)
      assume "p \<noteq> q"
      with q(4) have "p \<in> aligned_with g q" by simp
      with gr q(2,3) have "node_type (nodes g ! p) = 1" unfolding groups_ok_iff by blast
      with p(2) show False by simp
    qed
    with q(1) show ?thesis by simp
  qed
  have 1: "\<exists>i. i + length (aligned_nodes_ids (nodes g ! p)) < length order \<and> order ! i = p \<and>
             take (length (aligned_nodes_ids (nodes g ! p))) (drop (Suc i) order)
               = aligned_nodes_ids (nodes g ! p)"
    if p: "p < ?N" "node_type (nodes g ! p) = 0" for p
  proof -
    from head[OF p] obtain ps1 ps2 where ps: "ps = ps1 @ p # ps2" by (meson split_list)
    let ?pre = "concat (map (block g) ps1)" and ?post = "concat (map (block g) ps2)"
    let ?A = "aligned_nodes_ids (nodes g ! p)"
    from b have o: "order = ?pre @ p # ?A @ ?post"
      by (simp add: blocks_of_def ps block_def)
    have "length ?pre + length ?A < length order" unfolding o by simp
    moreover have "order ! length ?pre = p" unfolding o by simp
    moreover have "take (length ?A) (drop (Suc (length ?pre)) order) = ?A" unfolding o by simp
    ultimately show ?thesis by blast
  qed
  from assign_msa_ids_blocks[OF b d, of "replicate ?N (- 1)" 0] obtain msa where
    r: "assign_msa_ids g order (replicate ?N (- 1), 0) = Inr (msa, length ps)"
    and l: "length msa = ?N"
    and c: "\<forall>i < length ps. \<forall>k \<in> set (block g (ps ! i)). k < ?N \<longrightarrow> msa ! k = int i"
    by auto
  have m: "msa_node_ids_of g order = Inr (msa, length ps)"
    using r len by (simp add: msa_node_ids_of_def)
  have 2: "0 \<le> msa ! a \<and> msa ! a < int (length ps) \<and> (\<forall>b \<in> aligned_with g a. msa ! b = msa ! a)"
    if a: "a < ?N" for a
  proof -
    from a s have "a \<in> set order" by simp
    from blocks_of_member[OF b this] obtain q where
      q: "q \<in> set ps" "q < ?N" "node_type (nodes g ! q) = 0" "a = q \<or> a \<in> aligned_with g q"
      by blast
    from q(1) obtain i where i: "i < length ps" "ps ! i = q" by (auto simp: in_set_conv_nth)
    have blk: "set (block g q) = insert q (aligned_with g q)"
      by (simp add: block_def aligned_with_def)
    from c i a q(4) blk have ma: "msa ! a = int i" by auto
    have "msa ! b = int i" if b': "b \<in> aligned_with g a" for b
    proof -
      from cl a b' have bN: "b < ?N" unfolding aligned_closed_iff by blast
      have "b = q \<or> b \<in> aligned_with g q"
      proof (cases "a = q")
        case True
        with b' show ?thesis by simp
      next
        case False
        with q(4) have aq: "a \<in> aligned_with g q" by simp
        from cl q(2) aq have "\<forall>c \<in> aligned_with g a. c \<noteq> q \<longrightarrow> c \<in> aligned_with g q"
          unfolding aligned_closed_iff by blast
        with b' show ?thesis by blast
      qed
      with c i bN blk show ?thesis by auto
    qed
    with ma i(1) show ?thesis by simp
  qed
  from d s 1 2 m l show ?thesis by blast
qed

text \<open>
  C3 asks for the rigorous order on every acyclic graph that insertions and merges
  can build; the source does not deliver it.  \<open>GT\<close>, then \<open>CAT\<close> merged along a new
  node and the nodes 0 and 1, then \<open>TGT\<close> merged along the nodes 2, 3 and 1, gives
  the edges 0-1, 2-3, 3-1 and 4-0, where node 3 is a variant aligned with node 0
  and node 4 a variant aligned with node 2; the graph is acyclic and its cached
  order is 4, 0, 2, 3, 1.  The rigorous sort visits the variant 4 as a root before
  its primary node 2 and leaves it temporarily marked; the visit of node 0 then
  follows the in-edge from node 4 and fails the assertion "Graph is not a DAG!".
  There is no rigorous order, and \<open>generate_msa\<close> stops, although
  \<open>generate_consensus\<close> returns.  The same happens for \<open>ACGT\<close> after merging \<open>CC\<close>
  along the nodes 2 and 1.
\<close>

theorem C3_rigorous_sort_stops_on_acyclic_graph:
  "reachable gt_cat_tgt_graph \<and> acyclic (edge_rel gt_cat_tgt_graph) \<and>
   sorted_nodes_ids gt_cat_tgt_graph = [4, 0, 2, 3, 1] \<and>
   rigorous_sort gt_cat_tgt_graph = Some (Inl GraphCorruption) \<and>
   generate_msa gt_cat_tgt_graph False = Some (Inl GraphCorruption) \<and>
   then_consensus gt_cat_tgt = Some (Inr ''TGT'') \<and>
   reachable acgt_cc_graph \<and> acyclic (edge_rel acgt_cc_graph) \<and>
   sorted_nodes_ids acgt_cc_graph = [0, 4, 1, 2, 3] \<and>
   rigorous_sort acgt_cc_graph = Some (Inl GraphCorruption) \<and>
   generate_msa acgt_cc_graph False = Some (Inl GraphCorruption)"
proof -
  have "valid_linearization gt_cat_tgt_graph"
    using reachable_linearization[OF reachable_gt_cat_tgt] .
  then have 0: "acyclic (edge_rel gt_cat_tgt_graph)"
    using linearization_acyclic by (simp add: valid_linearization_def)
  have "valid_linearization acgt_cc_graph"
    using reachable_linearization[OF reachable_acgt_cc] .
  then have 1: "acyclic (edge_rel acgt_cc_graph)"
    using linearization_acyclic by (simp add: valid_linearization_def)
  have 2: "sorted_nodes_ids gt_cat_tgt_graph = [4, 0, 2, 3, 1]"
    "rigorous_sort gt_cat_tgt_graph = Some (Inl GraphCorruption)"
    "generate_msa gt_cat_tgt_graph False = Some (Inl GraphCorruption)"
    "then_consensus gt_cat_tgt = Some (Inr ''TGT'')"
    by code_simp+
  have 3: "sorted_nodes_ids acgt_cc_graph = [0, 4, 1, 2, 3]"
    "rigorous_sort acgt_cc_graph = Some (Inl GraphCorruption)"
    "generate_msa acgt_cc_graph False = Some (Inl GraphCorruption)"
    by code_simp+
  from reachable_gt_cat_tgt reachable_acgt_cc 0 1 2 3 show ?thesis by simp
qed

subsection \<open>The walk along a sequence\<close>












subsection \<open>Temporary marks in the rigorous search\<close>









subsection \<open>The rigorous order follows the edges\<close>














subsection \<open>The paths of the sequences\<close>


















subsection \<open>The path of the merged sequence\<close>















subsection \<open>C7: the rows without their gaps\<close>





end
